theory Spec2Isabelle
  imports Complex_Main "HOL-Library.Monad_Syntax"
begin

section \<open>The Gibbs sampler of the tutorial notebook\<close>

text \<open>
  The class \<open>Gibbs\<close> of \<^verbatim>\<open>4_Gibbs_Sampling_Tutorial.ipynb\<close> keeps its state in pandas
  tables that are read and written by label. The embedding keeps the tables as the code
  has them:
  \<^item> \<open>self.text\<close>, a Series of word lists, is a list of string lists (field \<open>texts\<close>);
  \<^item> \<open>self.doc_topic\<close>, a Series of integer arrays, is a list of lists of topics;
  \<^item> \<open>self.doc_topic_counts\<close>, a frame with one row per document and one column per
    topic, is a list of rows;
  \<^item> \<open>self.term_topic_count\<close>, a frame whose rows are labelled by the words of
    \<open>self.tokens\<close>, is a function from the row label to the row, the labels being
    \<open>tokens\<close>;
  \<^item> a lookup by a label that the table does not have raises (KeyError, IndexError):
    the operations return \<open>None\<close> there;
  \<^item> the counts are integers; the priors, the weights and the perplexity scores are
    floating point numbers in the code and real numbers here.
\<close>

subsection \<open>The runtime: set iteration order, numpy's random generator and its sort\<close>

text \<open>
  The library operations that the class calls are not code of the repository and are
  parameters of the model.
  \<^item> \<open>set_list xs\<close> is \<open>list(set(xs))\<close>.
  \<^item> \<open>randint high n g\<close> is \<open>np.random.randint(0, high, size=(n,))\<close> for a \<open>high\<close>
    that numpy accepts, run in the generator state \<open>g\<close>.
  \<^item> \<open>randint_empty_unchecked\<close> tells how the library treats a request for no draws:
    numpy from version 1.17 on returns the empty array before it looks at the bounds,
    earlier versions check the bounds first.
  \<^item> \<open>multinomial1 p g\<close> is \<open>np.where(np.random.multinomial(1, p) == 1)[0][0]\<close>, the
    index of the category that the single trial selected.
  \<^item> \<open>argsort keys\<close> is numpy's \<open>keys.argsort(kind='quicksort')\<close>: the positions of
    \<open>keys\<close> in an ascending order of the keys. The sort is not stable, so the order of
    the positions of equal keys is the library's.
  The generator is numpy's global one; its state is threaded through the model. The
  size limits that numpy checks before it allocates are part of the model; the machine is
  taken to have the memory for every array within these limits, so no allocation runs out
  of memory.
\<close>

record 'g runtime =
  set_list :: "string list \<Rightarrow> string list"
  randint :: "int \<Rightarrow> nat \<Rightarrow> 'g \<Rightarrow> nat list \<times> 'g"
  randint_empty_unchecked :: bool
  multinomial1 :: "real list \<Rightarrow> 'g \<Rightarrow> nat \<times> 'g"
  argsort :: "int list \<Rightarrow> nat list"

text \<open>What the library promises and the sampler relies on: \<open>list(set(xs))\<close> lists each
  element of \<open>xs\<close> once; \<open>randint\<close> returns the requested number of draws, all below
  \<open>high\<close>; and the single multinomial trial over a vector of probabilities (non-negative,
  summing to one) selects one of its categories.\<close>

definition prob_vector :: "real list \<Rightarrow> bool" where
  "prob_vector p = (p \<noteq> [] \<and> list_all (\<lambda>x. 0 \<le> x) p \<and> sum_list p = 1)"

definition runtime_ok :: "'g runtime \<Rightarrow> bool" where
  "runtime_ok R =
     ((\<forall>xs. distinct (set_list R xs) \<and> set (set_list R xs) = set xs) \<and>
      (\<forall>high n g. 0 < high \<longrightarrow>
         length (fst (randint R high n g)) = n \<and>
         list_all (\<lambda>x. int x < high) (fst (randint R high n g))) \<and>
      (\<forall>p g. prob_vector p \<longrightarrow> fst (multinomial1 R p g) < length p))"

text \<open>What the sort promises: every position once, the keys at these positions in
  ascending order.\<close>

definition argsort_ok :: "'g runtime \<Rightarrow> bool" where
  "argsort_ok R =
     (\<forall>keys. distinct (argsort R keys) \<and>
             set (argsort R keys) = {..<length keys} \<and>
             sorted (map (\<lambda>i. keys ! i) (argsort R keys)))"

subsection \<open>The sampler state\<close>

text \<open>The fields of a \<open>Gibbs\<close> object, under their names (\<open>self.text\<close> is \<open>texts\<close>).\<close>

record gibbs =
  tokens :: "string list"
  V :: nat
  K :: int
  texts :: "string list list"
  doc_topic :: "nat list list"
  doc_topic_counts :: "int list list"
  term_topic_count :: "string \<Rightarrow> int list"
  alpha :: real
  beta :: real
  perplexity_scores :: "real list"

subsection \<open>Loops and lookups that can raise\<close>

fun for_loop :: "('a \<Rightarrow> 's \<Rightarrow> 's option) \<Rightarrow> 'a list \<Rightarrow> 's \<Rightarrow> 's option" where
  "for_loop f [] s = Some s"
| "for_loop f (x # xs) s = (case f x s of None \<Rightarrow> None | Some s' \<Rightarrow> for_loop f xs s')"

definition nth_opt :: "'a list \<Rightarrow> nat \<Rightarrow> 'a option" where
  "nth_opt xs i = (if i < length xs then Some (xs ! i) else None)"

text \<open>\<open>frame.loc[r, c] += v\<close> on the document table: both labels must exist.\<close>

definition loc_add :: "int list list \<Rightarrow> nat \<Rightarrow> nat \<Rightarrow> int \<Rightarrow> int list list option" where
  "loc_add m r c v =
     (if r < length m \<and> c < length (m ! r)
      then Some (m[r := (m ! r)[c := m ! r ! c + v]]) else None)"

text \<open>The same on the term table, whose row labels are the tokens.\<close>

definition term_loc_add ::
  "string list \<Rightarrow> (string \<Rightarrow> int list) \<Rightarrow> string \<Rightarrow> nat \<Rightarrow> int \<Rightarrow> (string \<Rightarrow> int list) option" where
  "term_loc_add toks t w c v =
     (if w \<in> set toks \<and> c < length (t w)
      then Some (t(w := (t w)[c := t w ! c + v])) else None)"

text \<open>Python's float division raises ZeroDivisionError on a zero divisor.\<close>

definition py_div :: "real \<Rightarrow> real \<Rightarrow> real option" where
  "py_div a b = (if b = 0 then None else Some (a / b))"

subsection \<open>Construction\<close>

text \<open>\<open>np.random.randint(0, high, size)\<close> draws 64-bit integers: it raises ValueError
  (low >= high) unless \<open>0 < high\<close>, and ValueError (high is out of bounds for int64) when
  \<open>high\<close> exceeds \<open>2^63\<close>. A library that returns the empty array unchecked does not raise
  when no draw is asked for.\<close>

definition np_randint :: "'g runtime \<Rightarrow> int \<Rightarrow> nat \<Rightarrow> 'g \<Rightarrow> (nat list \<times> 'g) option" where
  "np_randint R high n g =
     (if high \<le> 0 \<or> 2 ^ 63 < high
      then (if randint_empty_unchecked R \<and> n = 0 then Some ([], g) else None)
      else Some (randint R high n g))"

text \<open>\<open>text.apply(lambda x: np.random.randint(0, self.K, size=(len(x),)))\<close>: one array of
  draws per document, in document order.\<close>

fun draw_docs :: "'g runtime \<Rightarrow> int \<Rightarrow> string list list \<Rightarrow> 'g \<Rightarrow> (nat list list \<times> 'g) option" where
  "draw_docs R k [] g = Some ([], g)"
| "draw_docs R k (x # xs) g =
     (case np_randint R k (length x) g of
        None \<Rightarrow> None
      | Some (t, g1) \<Rightarrow>
          (case draw_docs R k xs g1 of
             None \<Rightarrow> None
           | Some (ts, g2) \<Rightarrow> Some (t # ts, g2)))"

text \<open>\<open>Counter(x)\<close> as a row of the document table: after \<open>apply(pd.Series)\<close>,
  \<open>fillna(0)\<close> and the filling of the missing columns the row has one entry for each
  topic of \<open>range(K)\<close>, the number of times the topic was drawn in the document.\<close>

definition counter_row :: "int \<Rightarrow> nat list \<Rightarrow> int list" where
  "counter_row k x = map (\<lambda>j. int (count_list x j)) [0..<nat k]"

text \<open>\<open>np.zeros((V, K))\<close> raises ValueError on a negative dimension, on a dimension
  beyond the 64-bit index type, and when the array of 8-byte floats would take more than
  \<open>2^63 - 1\<close> bytes (array is too big). With \<open>V = 0\<close> the array is empty.\<close>

definition np_zeros :: "nat \<Rightarrow> int \<Rightarrow> (string \<Rightarrow> int list) option" where
  "np_zeros v k =
     (if k < 0 \<or> 2 ^ 63 \<le> k \<or> 2 ^ 63 \<le> 8 * int v * k then None
      else Some (\<lambda>w. replicate (nat k) 0))"

text \<open>The tally loop of the constructor:
  \<open>for (topic, word) in zip(doc_topic.ix[doc_ind], text.ix[doc_ind])\<close>.\<close>

definition tally_doc ::
  "string list \<Rightarrow> nat list \<times> string list \<Rightarrow> (string \<Rightarrow> int list) \<Rightarrow> (string \<Rightarrow> int list) option" where
  "tally_doc toks = (\<lambda>(topics, doc).
     for_loop (\<lambda>(topic, word) t. term_loc_add toks t word topic 1) (zip topics doc))"

text \<open>\<open>Gibbs.__init__(text, K)\<close>, statement by statement. \<open>None\<close> stands for any
  exception that leaves the constructor; which exception it is, is not kept.\<close>

definition Gibbs_init ::
  "'g runtime \<Rightarrow> 'g \<Rightarrow> string list list \<Rightarrow> int \<Rightarrow> ('g \<times> gibbs) option" where
  "Gibbs_init R g text k =
     (let toks = set_list R (concat text) in
      do {
        (dt, g1) \<leftarrow> draw_docs R k text g;
        zeros \<leftarrow> np_zeros (length toks) k;
        ttc \<leftarrow> for_loop (tally_doc toks) (zip dt text) zeros;
        a \<leftarrow> py_div 50 (real_of_int k);
        b \<leftarrow> py_div 200 (real (length toks));
        Some (g1, \<lparr> tokens = toks, V = length toks, K = k, texts = text,
                    doc_topic = dt, doc_topic_counts = map (counter_row k) dt,
                    term_topic_count = ttc, alpha = a, beta = b,
                    perplexity_scores = [] \<rparr>)
      })"

subsection \<open>One resample: remove, weigh, draw, add back\<close>

text \<open>The first half of the loop body: the two decrements. \<open>topics[word_ind]\<close> is read
  from the array of the document in \<open>self.doc_topic\<close>.\<close>

definition remove :: "nat \<Rightarrow> nat \<Rightarrow> string \<Rightarrow> gibbs \<Rightarrow> gibbs option" where
  "remove d i word s =
     do {
       topics \<leftarrow> nth_opt (doc_topic s) d;
       k_old \<leftarrow> nth_opt topics i;
       dtc \<leftarrow> loc_add (doc_topic_counts s) d k_old (- 1);
       ttc \<leftarrow> term_loc_add (tokens s) (term_topic_count s) word k_old (- 1);
       Some (s\<lparr> doc_topic_counts := dtc, term_topic_count := ttc \<rparr>)
     }"

text \<open>\<open>self.doc_topic_counts.sum()\<close>: the sum of each column of the document table.\<close>

definition col_sum :: "int list list \<Rightarrow> nat \<Rightarrow> int" where
  "col_sum m j = sum_list (map (\<lambda>row. row ! j) m)"

definition word_given_topic :: "gibbs \<Rightarrow> string \<Rightarrow> real list" where
  "word_given_topic s word =
     map (\<lambda>j. (real_of_int (term_topic_count s word ! j) + beta s) /
              (real_of_int (col_sum (doc_topic_counts s) j) + real (V s) * beta s))
         [0..<nat (K s)]"

definition topic_given_doc :: "gibbs \<Rightarrow> nat \<Rightarrow> real list" where
  "topic_given_doc s d =
     map (\<lambda>j. (real_of_int (doc_topic_counts s ! d ! j) + alpha s) /
              (real_of_int (sum_list (doc_topic_counts s ! d)) + real_of_int (K s) * alpha s))
         [0..<nat (K s)]"

text \<open>\<open>weights = word_given_topic * topic_given_doc\<close>, and then
  \<open>weights = weights / weights.sum()\<close>.\<close>

definition weights :: "gibbs \<Rightarrow> nat \<Rightarrow> string \<Rightarrow> real list" where
  "weights s d word = map2 (*) (word_given_topic s word) (topic_given_doc s d)"

definition normalize_weights :: "real list \<Rightarrow> real list" where
  "normalize_weights ws = map (\<lambda>x. x / sum_list ws) ws"

text \<open>The second half: \<open>topics[word_ind] = new_topic\<close> and the two increments.\<close>

definition add_back :: "nat \<Rightarrow> nat \<Rightarrow> string \<Rightarrow> nat \<Rightarrow> gibbs \<Rightarrow> gibbs option" where
  "add_back d i word new_topic s =
     do {
       topics \<leftarrow> nth_opt (doc_topic s) d;
       _ \<leftarrow> nth_opt topics i;
       dtc \<leftarrow> loc_add (doc_topic_counts s) d new_topic 1;
       ttc \<leftarrow> term_loc_add (tokens s) (term_topic_count s) word new_topic 1;
       Some (s\<lparr> doc_topic := (doc_topic s)[d := topics[i := new_topic]],
                doc_topic_counts := dtc, term_topic_count := ttc \<rparr>)
     }"

text \<open>The body of the inner loop of \<open>iterate\<close>. The array \<open>topics\<close> of the code is the
  array stored in \<open>self.doc_topic\<close> (no copy is made), so the assignment
  \<open>topics[word_ind] = new_topic\<close> already changes \<open>self.doc_topic\<close>.\<close>

definition resample_one ::
  "'g runtime \<Rightarrow> nat \<Rightarrow> nat \<times> string \<Rightarrow> 'g \<times> gibbs \<Rightarrow> ('g \<times> gibbs) option" where
  "resample_one R d = (\<lambda>(i, word) (g, s).
     do {
       s1 \<leftarrow> remove d i word s;
       let (new_topic, g') = multinomial1 R (normalize_weights (weights s1 d word)) g;
       s2 \<leftarrow> add_back d i word new_topic s1;
       Some (g', s2)
     })"

subsection \<open>The perplexity score\<close>

text \<open>\<open>dt = (doc_topic_counts + alpha).apply(lambda x: x/x.sum(), 1).fillna(0)\<close>. A
  quotient \<open>0/0\<close> is the only source of a missing value, and it is \<open>0\<close> both after
  \<open>fillna(0)\<close> and in HOL.\<close>

definition dt_row :: "gibbs \<Rightarrow> int list \<Rightarrow> real list" where
  "dt_row s row = (let x = map (\<lambda>c. real_of_int c + alpha s) row in map (\<lambda>v. v / sum_list x) x)"

definition dt :: "gibbs \<Rightarrow> real list list" where
  "dt s = map (dt_row s) (doc_topic_counts s)"

text \<open>\<open>tt = (term_topic_count + beta) / (term_topic_count + beta).sum().fillna(0)\<close>: each
  column is divided by its sum over the tokens.\<close>

definition tt_sum :: "gibbs \<Rightarrow> nat \<Rightarrow> real" where
  "tt_sum s j = sum_list (map (\<lambda>w. real_of_int (term_topic_count s w ! j) + beta s) (tokens s))"

definition tt :: "gibbs \<Rightarrow> string \<Rightarrow> real list" where
  "tt s w = map (\<lambda>j. (real_of_int (term_topic_count s w ! j) + beta s) / tt_sum s j) [0..<nat (K s)]"

text \<open>The inner function \<open>prob\<close>: the row holds the document index and the word list.\<close>

definition prob :: "gibbs \<Rightarrow> nat \<times> string list \<Rightarrow> real option" where
  "prob s = (\<lambda>(index, word_list).
     for_loop (\<lambda>each doc_perp.
         if each \<in> set (tokens s) \<and> index < length (dt s)
         then Some (doc_perp + ln (sum_list (map2 (*) (tt s each) (dt s ! index))))
         else None)
       word_list 0)"

fun apply_rows :: "('a \<Rightarrow> 'b option) \<Rightarrow> 'a list \<Rightarrow> 'b list option" where
  "apply_rows f [] = Some []"
| "apply_rows f (x # xs) =
     (case f x of None \<Rightarrow> None
      | Some y \<Rightarrow> (case apply_rows f xs of None \<Rightarrow> None | Some ys \<Rightarrow> Some (y # ys)))"

text \<open>\<open>perplexity()\<close>: the rows of \<open>self.text.reset_index()\<close> are the documents with
  their index; the score appended is \<open>exp(-sum/N)\<close>.\<close>

definition perplexity :: "'g \<times> gibbs \<Rightarrow> ('g \<times> gibbs) option" where
  "perplexity = (\<lambda>(g, s).
     do {
       perp \<leftarrow> apply_rows (prob s) (enumerate 0 (texts s));
       Some (g, s\<lparr> perplexity_scores := perplexity_scores s @
                   [exp (- sum_list perp / real (sum_list (map length (texts s))))] \<rparr>)
     })"

subsection \<open>The sweeps\<close>

text \<open>\<open>self.doc_topic.ix[doc_ind] = topics\<close> stores the array back into its own slot.\<close>

definition store_back :: "nat \<Rightarrow> 'g \<times> gibbs \<Rightarrow> 'g \<times> gibbs" where
  "store_back d = (\<lambda>(g, s). (g, s\<lparr> doc_topic := (doc_topic s)[d := doc_topic s ! d] \<rparr>))"

text \<open>The body of the loop over the documents, the loop itself, and one step of the
  outer loop of \<open>iterate\<close>, which evaluates the perplexity first when the step number is a
  multiple of 25 (the \<open>print\<close> of the progress line is left out).\<close>

definition sweep_doc ::
  "'g runtime \<Rightarrow> nat \<times> string list \<Rightarrow> 'g \<times> gibbs \<Rightarrow> ('g \<times> gibbs) option" where
  "sweep_doc R = (\<lambda>(doc_ind, doc) gs.
     do {
       _ \<leftarrow> nth_opt (doc_topic (snd gs)) doc_ind;
       gs' \<leftarrow> for_loop (resample_one R doc_ind) (enumerate 0 doc) gs;
       Some (store_back doc_ind gs')
     })"

definition sweep :: "'g runtime \<Rightarrow> 'g \<times> gibbs \<Rightarrow> ('g \<times> gibbs) option" where
  "sweep R gs = for_loop (sweep_doc R) (enumerate 0 (texts (snd gs))) gs"

definition gibbs_step :: "'g runtime \<Rightarrow> nat \<Rightarrow> 'g \<times> gibbs \<Rightarrow> ('g \<times> gibbs) option" where
  "gibbs_step R step gs =
     do {
       gs1 \<leftarrow> (if step mod 25 = 0 then perplexity gs else Some gs);
       sweep R gs1
     }"

text \<open>\<open>iterate(n)\<close>: \<open>range(n)\<close> is empty for \<open>n \<le> 0\<close>.\<close>

definition iterate :: "'g runtime \<Rightarrow> int \<Rightarrow> 'g \<times> gibbs \<Rightarrow> ('g \<times> gibbs) option" where
  "iterate R n gs = for_loop (gibbs_step R) [0..<nat n] gs"

subsection \<open>The top words of each topic\<close>

text \<open>\<open>term_topic_count.sort(topic, ascending=False)\<close>: for a descending sort pandas
  reverses the rows, takes the \<open>argsort\<close> of the reversed column and reverses the rows
  that it selects.\<close>

definition sort_descending :: "'g runtime \<Rightarrow> gibbs \<Rightarrow> nat \<Rightarrow> string list" where
  "sort_descending R s topic =
     (let rows = rev (tokens s);
          keys = map (\<lambda>w. term_topic_count s w ! topic) rows
      in rev (map (\<lambda>i. rows ! i) (argsort R keys)))"

text \<open>\<open>top_n = term_topic_count.sort(topic, ascending=False)[topic].head(n)\<close> for one
  topic; the words printed are its row labels.\<close>

definition top_n :: "'g runtime \<Rightarrow> gibbs \<Rightarrow> nat \<Rightarrow> nat \<Rightarrow> string list" where
  "top_n R s topic n = take n (sort_descending R s topic)"

text \<open>\<open>top_n_words(n)\<close> has no topic parameter: for every topic of \<open>range(K)\<close> it
  prints a header and the words of that topic, one per line. It has no \<open>return\<close>
  statement, so the call evaluates to \<open>None\<close>, and it assigns to no field. The result
  holds what is printed (the topic of each header with the words under it), the value
  returned, and the state the call leaves.\<close>

definition top_n_words ::
  "'g runtime \<Rightarrow> gibbs \<Rightarrow> nat \<Rightarrow>
     (nat \<times> string list) list \<times> string list list option \<times> gibbs" where
  "top_n_words R s n = (map (\<lambda>topic. (topic, top_n R s topic n)) [0..<nat (K s)], None, s)"

section \<open>What the tables are specified to hold\<close>

subsection \<open>Tallies of a topic assignment\<close>

text \<open>\<open>drop_nth i xs\<close> is \<open>xs\<close> without its element at position \<open>i\<close>.\<close>

definition drop_nth :: "nat \<Rightarrow> 'a list \<Rightarrow> 'a list" where
  "drop_nth i xs = take i xs @ drop (Suc i) xs"

text \<open>\<open>tally txt zs w k\<close> is the number of occurrences of the word \<open>w\<close> in the corpus
  \<open>txt\<close> that the assignment \<open>zs\<close> gives the topic \<open>k\<close>; \<open>tally_row\<close> is the row of
  these numbers for the topics of \<open>range(K)\<close>.\<close>

definition tally :: "string list list \<Rightarrow> nat list list \<Rightarrow> string \<Rightarrow> nat \<Rightarrow> int" where
  "tally txt zs w k =
     sum_list (map (\<lambda>(doc, topics). int (count_list (zip doc topics) (w, k))) (zip txt zs))"

definition tally_row :: "int \<Rightarrow> string list list \<Rightarrow> nat list list \<Rightarrow> string \<Rightarrow> int list" where
  "tally_row k txt zs w = map (tally txt zs w) [0..<nat k]"

subsection \<open>The invariant\<close>

text \<open>The shape of a state: one topic of \<open>range(K)\<close> for every word occurrence, the
  tokens are the distinct words of the corpus, \<open>V\<close> is their number, and \<open>K\<close> and both
  priors are positive.\<close>

definition shape_ok :: "gibbs \<Rightarrow> bool" where
  "shape_ok s =
     (length (doc_topic s) = length (texts s) \<and>
      list_all2 (\<lambda>topics doc. length topics = length doc) (doc_topic s) (texts s) \<and>
      list_all (list_all (\<lambda>t. int t < K s)) (doc_topic s) \<and>
      distinct (tokens s) \<and>
      list_all (\<lambda>w. w \<in> set (tokens s)) (concat (texts s)) \<and>
      V s = length (tokens s) \<and>
      1 \<le> K s \<and> 0 < alpha s \<and> 0 < beta s)"

text \<open>Both count tables hold the tallies of the current assignment.\<close>

definition counts_ok :: "gibbs \<Rightarrow> bool" where
  "counts_ok s =
     (doc_topic_counts s = map (counter_row (K s)) (doc_topic s) \<and>
      list_all (\<lambda>w. term_topic_count s w = tally_row (K s) (texts s) (doc_topic s) w) (tokens s))"

definition wf :: "gibbs \<Rightarrow> bool" where
  "wf s = (shape_ok s \<and> counts_ok s)"

text \<open>Between the two halves of the resample of the occurrence \<open>(d, i)\<close> the tables hold
  the tallies of the corpus and the assignment without that occurrence.\<close>

definition without :: "nat \<Rightarrow> nat \<Rightarrow> gibbs \<Rightarrow> gibbs" where
  "without d i s =
     s\<lparr> texts := (texts s)[d := drop_nth i (texts s ! d)],
        doc_topic := (doc_topic s)[d := drop_nth i (doc_topic s ! d)] \<rparr>"

definition mid :: "nat \<Rightarrow> nat \<Rightarrow> gibbs \<Rightarrow> bool" where
  "mid d i s = (shape_ok s \<and> counts_ok (without d i s) \<and>
                d < length (texts s) \<and> i < length (texts s ! d))"

subsection \<open>The states of a run\<close>

text \<open>The states between completed operations: what the constructor returns, and what a
  completed resample of a word occurrence of the corpus or a completed perplexity
  evaluation returns from such a state.\<close>

inductive reachable :: "'g runtime \<Rightarrow> string list list \<Rightarrow> int \<Rightarrow> 'g \<times> gibbs \<Rightarrow> bool"
  for R :: "'g runtime" and docs :: "string list list" and k :: int where
  constructed: "Gibbs_init R g docs k = Some gs \<Longrightarrow> reachable R docs k gs"
| resampled: "reachable R docs k gs \<Longrightarrow> d < length docs \<Longrightarrow> i < length (docs ! d) \<Longrightarrow>
      resample_one R d (i, docs ! d ! i) gs = Some gs' \<Longrightarrow> reachable R docs k gs'"
| evaluated: "reachable R docs k gs \<Longrightarrow> perplexity gs = Some gs' \<Longrightarrow> reachable R docs k gs'"

subsection \<open>The perplexity as specified\<close>

text \<open>The specification's words: the smoothed document-topic distribution
  \<open>dt[d,k] = (doc_topic_counts[d,k] + alpha) / sum_k (doc_topic_counts[d,k] + alpha)\<close>, the
  smoothed topic-term distribution
  \<open>tt[w,k] = (term_topic_count[w,k] + beta) / sum_w (term_topic_count[w,k] + beta)\<close>, the
  log-likelihood \<open>L\<close> summed over every word occurrence of every document, and the
  perplexity \<open>exp(-L/N)\<close> for the total word count \<open>N\<close>.\<close>

definition dt_spec :: "gibbs \<Rightarrow> nat \<Rightarrow> nat \<Rightarrow> real" where
  "dt_spec s d k =
     (real_of_int (doc_topic_counts s ! d ! k) + alpha s) /
     (\<Sum>k' < nat (K s). real_of_int (doc_topic_counts s ! d ! k') + alpha s)"

definition tt_spec :: "gibbs \<Rightarrow> string \<Rightarrow> nat \<Rightarrow> real" where
  "tt_spec s w k =
     (real_of_int (term_topic_count s w ! k) + beta s) /
     (\<Sum>w' \<in> set (tokens s). real_of_int (term_topic_count s w' ! k) + beta s)"

definition log_likelihood_spec :: "gibbs \<Rightarrow> real" where
  "log_likelihood_spec s =
     (\<Sum>d < length (texts s). \<Sum>i < length (texts s ! d).
        ln (\<Sum>k < nat (K s). tt_spec s (texts s ! d ! i) k * dt_spec s d k))"

definition perplexity_spec :: "gibbs \<Rightarrow> real" where
  "perplexity_spec s = exp (- log_likelihood_spec s / real (length (concat (texts s))))"

subsection \<open>The order of the visits of \<open>iterate\<close>\<close>

text \<open>What a call of \<open>iterate\<close> is specified to do, as a list of events: each pass starts
  with a perplexity evaluation when its number is a multiple of 25 and then visits every
  (document, position) pair once, documents in order and positions in order
  (\<open>before\<close>).\<close>

datatype event = Evaluate | Visit nat nat

definition visits :: "string list list \<Rightarrow> (nat \<times> nat) list" where
  "visits docs = concat (map (\<lambda>d. map (\<lambda>i. (d, i)) [0..<length (docs ! d)]) [0..<length docs])"

definition pass_events :: "string list list \<Rightarrow> nat \<Rightarrow> event list" where
  "pass_events docs step =
     (if step mod 25 = 0 then [Evaluate] else []) @ map (\<lambda>(d, i). Visit d i) (visits docs)"

definition schedule :: "string list list \<Rightarrow> nat \<Rightarrow> event list" where
  "schedule docs n = concat (map (pass_events docs) [0..<n])"

definition run_event ::
  "'g runtime \<Rightarrow> string list list \<Rightarrow> event \<Rightarrow> 'g \<times> gibbs \<Rightarrow> ('g \<times> gibbs) option" where
  "run_event R docs e =
     (case e of Evaluate \<Rightarrow> perplexity
      | Visit d i \<Rightarrow> resample_one R d (i, docs ! d ! i))"

text \<open>A run of a list of events: the first event is run in the given state, every other
  event in the state that the event before it has left, and the state after the last
  event is the result. An event that raises has no run.\<close>

inductive runs ::
  "'g runtime \<Rightarrow> string list list \<Rightarrow> event list \<Rightarrow> 'g \<times> gibbs \<Rightarrow> 'g \<times> gibbs \<Rightarrow> bool"
  for R :: "'g runtime" and docs :: "string list list" where
  runs_Nil: "runs R docs [] gs gs"
| runs_Cons: "run_event R docs e gs = Some gs1 \<Longrightarrow> runs R docs es gs1 gs' \<Longrightarrow>
     runs R docs (e # es) gs gs'"

definition valid_event :: "string list list \<Rightarrow> event \<Rightarrow> bool" where
  "valid_event docs e =
     (case e of Evaluate \<Rightarrow> True | Visit d i \<Rightarrow> d < length docs \<and> i < length (docs ! d))"


subsection \<open>Two runs of the sampler\<close>

text \<open>Two runs can differ in the order in which the token set is listed. \<open>retoken\<close>
  replaces the token list of a state; \<open>draws_and_trace\<close> is what a run shows of its
  random draws: the topic assignments, the perplexity trace and the generator state.\<close>

definition retoken :: "string list \<Rightarrow> 'g \<times> gibbs \<Rightarrow> 'g \<times> gibbs" where
  "retoken ts = (\<lambda>(g, s). (g, s\<lparr> tokens := ts \<rparr>))"

definition draws_and_trace :: "'g \<times> gibbs \<Rightarrow> nat list list \<times> real list \<times> 'g" where
  "draws_and_trace = (\<lambda>(g, s). (doc_topic s, perplexity_scores s, g))"

subsection \<open>A small corpus and two runtimes to run the sampler on\<close>

text \<open>A deterministic stand-in for the library: sets are listed in first-occurrence
  order, the generator is a counter and the sort is stable (as numpy's is on the few rows
  of the small corpus). \<open>demo_runtime_rev\<close> lists every set in the
  opposite order. \<open>observe\<close> shows the tables of a state, and \<open>printed_and_returned\<close>
  what a call of \<open>top_n_words\<close> prints and returns.\<close>

definition demo_runtime :: "nat runtime" where
  "demo_runtime =
     \<lparr> set_list = remdups,
       randint = (\<lambda>high n g. (map (\<lambda>j. (g + j) mod nat high) [0..<n], g + n)),
       randint_empty_unchecked = True,
       multinomial1 = (\<lambda>p g. (g mod length p, Suc g)),
       argsort = (\<lambda>keys. sort_key (\<lambda>i. keys ! i) [0..<length keys]) \<rparr>"

definition demo_runtime_rev :: "nat runtime" where
  "demo_runtime_rev = demo_runtime \<lparr> set_list := (\<lambda>xs. rev (remdups xs)) \<rparr>"

definition scenario_A :: "string list list" where
  "scenario_A = [[''a'', ''b''], [''b'', ''c'']]"

definition observe ::
  "'g \<times> gibbs \<Rightarrow> 'g \<times> string list \<times> nat list list \<times> int list list \<times> int list list" where
  "observe = (\<lambda>(g, s).
     (g, tokens s, doc_topic s, doc_topic_counts s, map (term_topic_count s) (tokens s)))"

definition printed_and_returned ::
  "'g runtime \<Rightarrow> nat \<Rightarrow> 'g \<times> gibbs \<Rightarrow>
     (nat \<times> string list) list \<times> string list list option" where
  "printed_and_returned R n = (\<lambda>(g, s).
     (fst (top_n_words R s n), fst (snd (top_n_words R s n))))"

section \<open>Properties\<close>

subsection \<open>Loops\<close>

lemma for_loop_inv:
  assumes "I s" and "\<And>x s. x \<in> set xs \<Longrightarrow> I s \<Longrightarrow> \<exists>s'. f x s = Some s' \<and> I s'"
  shows "\<exists>s'. for_loop f xs s = Some s' \<and> I s'"
  using assms
proof (induction xs arbitrary: s)
  case Nil
  then show ?case by simp
next
  case (Cons x xs)
  from Cons.prems obtain s1 where s1: "f x s = Some s1" "I s1" by (meson list.set_intros(1))
  have "\<exists>s'. for_loop f xs s1 = Some s' \<and> I s'"
    by (rule Cons.IH[OF s1(2)]) (use Cons.prems(2) in auto)
  with s1 show ?case by simp
qed

subsection \<open>Counting in lists\<close>

lemma count_list_card: "count_list xs x = card {i. i < length xs \<and> xs ! i = x}"
proof -
  have "{i. i < length xs \<and> x = xs ! i} = {i. i < length xs \<and> xs ! i = x}" by auto
  then show ?thesis by (simp add: count_list_eq_length_filter length_filter_conv_card)
qed

lemma count_list_update:
  "i < length xs \<Longrightarrow>
   int (count_list (xs[i := y]) a) =
     int (count_list xs a) - (if xs ! i = a then 1 else 0) + (if y = a then 1 else 0)"
proof (induction xs arbitrary: i)
  case Nil
  then show ?case by simp
next
  case (Cons x xs)
  show ?case
  proof (cases i)
    case 0
    then show ?thesis by simp
  next
    case (Suc j)
    with Cons.prems have "j < length xs" by simp
    from Cons.IH[OF this] show ?thesis using Suc by (auto split: if_splits)
  qed
qed

lemma count_list_drop_nth:
  "i < length xs \<Longrightarrow>
   int (count_list (drop_nth i xs) a) = int (count_list xs a) - (if xs ! i = a then 1 else 0)"
proof (induction xs arbitrary: i)
  case Nil
  then show ?case by simp
next
  case (Cons x xs)
  show ?case
  proof (cases i)
    case 0
    then show ?thesis by (simp add: drop_nth_def)
  next
    case (Suc j)
    with Cons.prems have "j < length xs" by simp
    from Cons.IH[OF this] show ?thesis using Suc by (auto simp: drop_nth_def split: if_splits)
  qed
qed

lemma sum_list_map_update:
  fixes f :: "'a \<Rightarrow> int"
  shows "d < length xs \<Longrightarrow> sum_list (map f (xs[d := y])) = sum_list (map f xs) - f (xs ! d) + f y"
proof (induction xs arbitrary: d)
  case Nil
  then show ?case by simp
next
  case (Cons x xs)
  show ?case
  proof (cases d)
    case 0
    then show ?thesis by simp
  next
    case (Suc j)
    with Cons.prems have "j < length xs" by simp
    from Cons.IH[OF this] show ?thesis using Suc by (auto split: if_splits)
  qed
qed

lemma zip_drop_nth:
  "length xs = length ys \<Longrightarrow> zip (drop_nth i xs) (drop_nth i ys) = drop_nth i (zip xs ys)"
  by (simp add: drop_nth_def take_zip drop_zip)

lemma zip_update_right: "zip xs (ys[i := y]) = (zip xs ys)[i := (xs ! i, y)]"
  by (metis list_update_id zip_update)

lemma tally_update:
  assumes "d < length txt" "length zs = length txt" "i < length (txt ! d)"
    "length (zs ! d) = length (txt ! d)"
  shows "tally txt (zs[d := (zs ! d)[i := new]]) w k =
    tally txt zs w k - (if txt ! d ! i = w \<and> zs ! d ! i = k then 1 else 0)
      + (if txt ! d ! i = w \<and> new = k then 1 else 0)"
proof -
  have z: "zip txt (zs[d := (zs ! d)[i := new]]) = (zip txt zs)[d := (txt ! d, (zs ! d)[i := new])]"
    by (rule zip_update_right)
  have i': "i < length (zip (txt ! d) (zs ! d))" using assms by simp
  show ?thesis
    unfolding tally_def z using assms i'
    by (simp add: sum_list_map_update zip_update_right count_list_update)
qed

lemma tally_drop_nth:
  assumes "d < length txt" "length zs = length txt" "i < length (txt ! d)"
    "length (zs ! d) = length (txt ! d)"
  shows "tally (txt[d := drop_nth i (txt ! d)]) (zs[d := drop_nth i (zs ! d)]) w k =
    tally txt zs w k - (if txt ! d ! i = w \<and> zs ! d ! i = k then 1 else 0)"
proof -
  have z: "zip (txt[d := drop_nth i (txt ! d)]) (zs[d := drop_nth i (zs ! d)])
      = (zip txt zs)[d := (drop_nth i (txt ! d), drop_nth i (zs ! d))]"
    by (rule zip_update)
  have i': "i < length (zip (txt ! d) (zs ! d))" using assms by simp
  show ?thesis
    unfolding tally_def z using assms i'
    by (simp add: sum_list_map_update zip_drop_nth count_list_drop_nth)
qed

subsection \<open>Rows of tallies\<close>

lemma counter_row_length [simp]: "length (counter_row k ts) = nat k"
  by (simp add: counter_row_def)

lemma counter_row_nth: "j < nat k \<Longrightarrow> counter_row k ts ! j = int (count_list ts j)"
  by (simp add: counter_row_def)

lemma counter_row_remove:
  assumes "i < length ts" "ts ! i < nat k"
  shows "(counter_row k ts)[ts ! i := counter_row k ts ! (ts ! i) - 1] = counter_row k (drop_nth i ts)"
proof (rule nth_equalityI)
  show "length ((counter_row k ts)[ts ! i := counter_row k ts ! (ts ! i) - 1]) = length (counter_row k (drop_nth i ts))"
    by simp
next
  fix j assume "j < length ((counter_row k ts)[ts ! i := counter_row k ts ! (ts ! i) - 1])"
  then have j: "j < nat k" by simp
  show "(counter_row k ts)[ts ! i := counter_row k ts ! (ts ! i) - 1] ! j = counter_row k (drop_nth i ts) ! j"
    using j assms by (simp add: counter_row_nth nth_list_update count_list_drop_nth)
qed

lemma counter_row_add:
  assumes "i < length ts" "new < nat k"
  shows "(counter_row k (drop_nth i ts))[new := counter_row k (drop_nth i ts) ! new + 1] = counter_row k (ts[i := new])"
proof (rule nth_equalityI)
  show "length ((counter_row k (drop_nth i ts))[new := counter_row k (drop_nth i ts) ! new + 1]) = length (counter_row k (ts[i := new]))"
    by simp
next
  fix j assume "j < length ((counter_row k (drop_nth i ts))[new := counter_row k (drop_nth i ts) ! new + 1])"
  then have j: "j < nat k" by simp
  show "(counter_row k (drop_nth i ts))[new := counter_row k (drop_nth i ts) ! new + 1] ! j = counter_row k (ts[i := new]) ! j"
    using j assms by (simp add: counter_row_nth nth_list_update count_list_drop_nth count_list_update)
qed

lemma tally_row_length [simp]: "length (tally_row k txt zs w) = nat k"
  by (simp add: tally_row_def)

lemma tally_row_nth: "j < nat k \<Longrightarrow> tally_row k txt zs w ! j = tally txt zs w j"
  by (simp add: tally_row_def)

lemma tally_row_remove:
  assumes "d < length txt" "length zs = length txt" "i < length (txt ! d)"
    "length (zs ! d) = length (txt ! d)" "zs ! d ! i < nat k"
  shows "(tally_row k txt zs (txt ! d ! i))[zs ! d ! i := tally_row k txt zs (txt ! d ! i) ! (zs ! d ! i) - 1]
    = tally_row k (txt[d := drop_nth i (txt ! d)]) (zs[d := drop_nth i (zs ! d)]) (txt ! d ! i)"
proof (rule nth_equalityI)
  show "length ((tally_row k txt zs (txt ! d ! i))[zs ! d ! i := tally_row k txt zs (txt ! d ! i) ! (zs ! d ! i) - 1])
    = length (tally_row k (txt[d := drop_nth i (txt ! d)]) (zs[d := drop_nth i (zs ! d)]) (txt ! d ! i))"
    by simp
next
  fix j assume "j < length ((tally_row k txt zs (txt ! d ! i))[zs ! d ! i := tally_row k txt zs (txt ! d ! i) ! (zs ! d ! i) - 1])"
  then have j: "j < nat k" by simp
  show "(tally_row k txt zs (txt ! d ! i))[zs ! d ! i := tally_row k txt zs (txt ! d ! i) ! (zs ! d ! i) - 1] ! j
    = tally_row k (txt[d := drop_nth i (txt ! d)]) (zs[d := drop_nth i (zs ! d)]) (txt ! d ! i) ! j"
    using j assms by (simp add: tally_row_nth nth_list_update tally_drop_nth)
qed

lemma tally_row_other_remove:
  assumes "d < length txt" "length zs = length txt" "i < length (txt ! d)"
    "length (zs ! d) = length (txt ! d)" "w \<noteq> txt ! d ! i"
  shows "tally_row k (txt[d := drop_nth i (txt ! d)]) (zs[d := drop_nth i (zs ! d)]) w = tally_row k txt zs w"
  using assms by (simp add: tally_row_def tally_drop_nth)

lemma tally_row_add:
  assumes "d < length txt" "length zs = length txt" "i < length (txt ! d)"
    "length (zs ! d) = length (txt ! d)" "new < nat k"
  shows "(tally_row k (txt[d := drop_nth i (txt ! d)]) (zs[d := drop_nth i (zs ! d)]) (txt ! d ! i))
            [new := tally_row k (txt[d := drop_nth i (txt ! d)]) (zs[d := drop_nth i (zs ! d)]) (txt ! d ! i) ! new + 1]
    = tally_row k txt (zs[d := (zs ! d)[i := new]]) (txt ! d ! i)"
  (is "?l = ?r")
proof (rule nth_equalityI)
  show "length ?l = length ?r" by simp
next
  fix j assume "j < length ?l"
  then have j: "j < nat k" by simp
  show "?l ! j = ?r ! j"
    using j assms by (simp add: tally_row_nth nth_list_update tally_drop_nth tally_update)
qed

lemma tally_row_other_add:
  assumes "d < length txt" "length zs = length txt" "i < length (txt ! d)"
    "length (zs ! d) = length (txt ! d)" "w \<noteq> txt ! d ! i"
  shows "tally_row k txt (zs[d := (zs ! d)[i := new]]) w
    = tally_row k (txt[d := drop_nth i (txt ! d)]) (zs[d := drop_nth i (zs ! d)]) w"
  using assms by (simp add: tally_row_def tally_drop_nth tally_update)

subsection \<open>Remove and add back keep the tables consistent\<close>

lemma shape_okD:
  assumes "shape_ok s" "d < length (texts s)"
  shows "d < length (doc_topic s)" "length (doc_topic s ! d) = length (texts s ! d)"
    "i < length (texts s ! d) \<Longrightarrow> doc_topic s ! d ! i < nat (K s)"
    "i < length (texts s ! d) \<Longrightarrow> texts s ! d ! i \<in> set (tokens s)"
proof -
  show d: "d < length (doc_topic s)" using assms by (simp add: shape_ok_def)
  show l: "length (doc_topic s ! d) = length (texts s ! d)"
    using assms by (simp add: shape_ok_def list_all2_conv_all_nth)
  show "doc_topic s ! d ! i < nat (K s)" if "i < length (texts s ! d)"
  proof -
    have "list_all (\<lambda>t. int t < K s) (doc_topic s ! d)"
      using assms d by (simp add: shape_ok_def list_all_length)
    then have "int (doc_topic s ! d ! i) < K s"
      using that l by (simp add: list_all_length)
    then show ?thesis by linarith
  qed
  show "texts s ! d ! i \<in> set (tokens s)" if "i < length (texts s ! d)"
  proof -
    have "texts s ! d ! i \<in> set (concat (texts s))"
      using assms(2) that by (metis nth_mem set_concat UN_I)
    then show ?thesis using assms(1) by (auto simp: shape_ok_def list_all_iff)
  qed
qed

lemma drop_nth_length: "i < length xs \<Longrightarrow> length (drop_nth i xs) = length xs - 1"
  by (simp add: drop_nth_def)

lemma set_drop_nth: "set (drop_nth i xs) \<subseteq> set xs"
  unfolding drop_nth_def by (auto dest: in_set_takeD in_set_dropD)

lemma remove_frame:
  assumes "remove d i w s = Some s1"
  shows "texts s1 = texts s" "doc_topic s1 = doc_topic s" "tokens s1 = tokens s"
    "K s1 = K s" "V s1 = V s" "alpha s1 = alpha s" "beta s1 = beta s"
    "perplexity_scores s1 = perplexity_scores s"
  using assms by (auto simp: remove_def bind_eq_Some_conv)

lemma remove_Some:
  assumes "wf s" "d < length (texts s)" "i < length (texts s ! d)"
  shows "remove d i (texts s ! d ! i) s =
     Some (s\<lparr> doc_topic_counts := (doc_topic_counts s)[d :=
                  counter_row (K s) (drop_nth i (doc_topic s ! d))],
               term_topic_count := (term_topic_count s)(texts s ! d ! i :=
                  tally_row (K s) (texts (without d i s)) (doc_topic (without d i s)) (texts s ! d ! i)) \<rparr>)"
proof -
  have sh: "shape_ok s" and co: "counts_ok s" using assms(1) by (simp_all add: wf_def)
  note D = shape_okD[OF sh assms(2)]
  let ?k = "doc_topic s ! d ! i"
  let ?w = "texts s ! d ! i"
  have k: "?k < nat (K s)" by (rule D(3)[OF assms(3)])
  have w: "?w \<in> set (tokens s)" by (rule D(4)[OF assms(3)])
  have i': "i < length (doc_topic s ! d)" using D(2) assms(3) by simp
  have row: "doc_topic_counts s ! d = counter_row (K s) (doc_topic s ! d)"
    using co D(1) by (simp add: counts_ok_def)
  have len: "length (doc_topic_counts s) = length (doc_topic s)"
    using co by (simp add: counts_ok_def)
  have trow: "term_topic_count s ?w = tally_row (K s) (texts s) (doc_topic s) ?w"
    using co w by (simp add: counts_ok_def list_all_iff)
  have 1: "loc_add (doc_topic_counts s) d ?k (- 1) =
      Some ((doc_topic_counts s)[d := counter_row (K s) (drop_nth i (doc_topic s ! d))])"
    using k D(1) len i' by (simp add: loc_add_def row counter_row_remove)
  have 2: "term_loc_add (tokens s) (term_topic_count s) ?w ?k (- 1) =
      Some ((term_topic_count s)(?w :=
        tally_row (K s) (texts (without d i s)) (doc_topic (without d i s)) ?w))"
    using k w assms(2,3) D(1,2) sh
    by (simp add: term_loc_add_def trow without_def tally_row_remove shape_ok_def)
  show ?thesis
    using D(1) i' by (simp add: remove_def nth_opt_def 1 2)
qed

lemma remove_mid:
  assumes "wf s" "d < length (texts s)" "i < length (texts s ! d)"
    "remove d i (texts s ! d ! i) s = Some s1"
  shows "mid d i s1"
proof -
  have sh: "shape_ok s" and co: "counts_ok s" using assms(1) by (simp_all add: wf_def)
  note D = shape_okD[OF sh assms(2)]
  note F = remove_frame[OF assms(4)]
  let ?w = "texts s ! d ! i"
  let ?txt = "(texts s)[d := drop_nth i (texts s ! d)]"
  let ?zs = "(doc_topic s)[d := drop_nth i (doc_topic s ! d)]"
  have s1: "s1 = s\<lparr> doc_topic_counts := (doc_topic_counts s)[d :=
                  counter_row (K s) (drop_nth i (doc_topic s ! d))],
               term_topic_count := (term_topic_count s)(?w :=
                  tally_row (K s) ?txt ?zs ?w) \<rparr>"
    using remove_Some[OF assms(1-3)] assms(4) by (simp add: without_def)
  have sh1: "shape_ok s1" using sh by (simp add: s1 shape_ok_def)
  have a: "doc_topic_counts s1 = map (counter_row (K s)) ?zs"
    using co by (simp add: s1 counts_ok_def map_update)
  have b: "term_topic_count s1 w = tally_row (K s) ?txt ?zs w" if "w \<in> set (tokens s)" for w
  proof (cases "w = ?w")
    case True
    then show ?thesis by (simp add: s1)
  next
    case False
    have "term_topic_count s w = tally_row (K s) (texts s) (doc_topic s) w"
      using co that by (simp add: counts_ok_def list_all_iff)
    then show ?thesis
      using False assms(2,3) D(1,2) sh
      by (simp add: s1 tally_row_other_remove shape_ok_def)
  qed
  have "counts_ok (without d i s1)"
    using a b by (simp add: counts_ok_def without_def list_all_iff F s1)
  then show ?thesis using sh1 assms(2,3) by (simp add: mid_def F)
qed

lemma add_back_frame:
  assumes "add_back d i w new s = Some s2"
  shows "texts s2 = texts s" "tokens s2 = tokens s"
    "K s2 = K s" "V s2 = V s" "alpha s2 = alpha s" "beta s2 = beta s"
    "perplexity_scores s2 = perplexity_scores s"
  using assms by (auto simp: add_back_def bind_eq_Some_conv)

lemma add_back_Some:
  assumes "mid d i s" "new < nat (K s)"
  shows "add_back d i (texts s ! d ! i) new s =
     Some (s\<lparr> doc_topic := (doc_topic s)[d := (doc_topic s ! d)[i := new]],
               doc_topic_counts := (doc_topic_counts s)[d :=
                  counter_row (K s) ((doc_topic s ! d)[i := new])],
               term_topic_count := (term_topic_count s)(texts s ! d ! i :=
                  tally_row (K s) (texts s) ((doc_topic s)[d := (doc_topic s ! d)[i := new]])
                    (texts s ! d ! i)) \<rparr>)"
proof -
  have sh: "shape_ok s" and co: "counts_ok (without d i s)"
    and d: "d < length (texts s)" and i: "i < length (texts s ! d)"
    using assms(1) by (simp_all add: mid_def)
  note D = shape_okD[OF sh d]
  let ?w = "texts s ! d ! i"
  let ?txt = "(texts s)[d := drop_nth i (texts s ! d)]"
  let ?zs = "(doc_topic s)[d := drop_nth i (doc_topic s ! d)]"
  have w: "?w \<in> set (tokens s)" by (rule D(4)[OF i])
  have i': "i < length (doc_topic s ! d)" using D(2) i by simp
  have dtc: "doc_topic_counts s = map (counter_row (K s)) ?zs"
    using co by (simp add: counts_ok_def without_def)
  have row: "doc_topic_counts s ! d = counter_row (K s) (drop_nth i (doc_topic s ! d))"
    using D(1) by (simp add: dtc)
  have len: "length (doc_topic_counts s) = length (doc_topic s)"
    by (simp add: dtc)
  have trow: "term_topic_count s ?w = tally_row (K s) ?txt ?zs ?w"
    using co w by (simp add: counts_ok_def list_all_iff without_def)
  have lenz: "length (doc_topic s) = length (texts s)" using sh by (simp add: shape_ok_def)
  have 1: "loc_add (doc_topic_counts s) d new 1 =
      Some ((doc_topic_counts s)[d := counter_row (K s) ((doc_topic s ! d)[i := new])])"
    using assms(2) D(1) len i' by (simp add: loc_add_def row counter_row_add)
  have 2: "term_loc_add (tokens s) (term_topic_count s) ?w new 1 =
      Some ((term_topic_count s)(?w :=
        tally_row (K s) (texts s) ((doc_topic s)[d := (doc_topic s ! d)[i := new]]) ?w))"
    using assms(2) w d i D(1,2) lenz
    by (simp add: term_loc_add_def trow tally_row_add)
  show ?thesis
    using D(1) i' by (simp add: add_back_def nth_opt_def 1 2)
qed

lemma add_back_wf:
  assumes "mid d i s" "new < nat (K s)" "add_back d i (texts s ! d ! i) new s = Some s2"
  shows "wf s2"
proof -
  have sh: "shape_ok s" and co: "counts_ok (without d i s)"
    and d: "d < length (texts s)" and i: "i < length (texts s ! d)"
    using assms(1) by (simp_all add: mid_def)
  note D = shape_okD[OF sh d]
  let ?w = "texts s ! d ! i"
  let ?txt = "(texts s)[d := drop_nth i (texts s ! d)]"
  let ?zs = "(doc_topic s)[d := drop_nth i (doc_topic s ! d)]"
  let ?zs2 = "(doc_topic s)[d := (doc_topic s ! d)[i := new]]"
  have lenz: "length (doc_topic s) = length (texts s)" using sh by (simp add: shape_ok_def)
  have s2: "s2 = s\<lparr> doc_topic := ?zs2,
               doc_topic_counts := (doc_topic_counts s)[d :=
                  counter_row (K s) ((doc_topic s ! d)[i := new])],
               term_topic_count := (term_topic_count s)(?w :=
                  tally_row (K s) (texts s) ?zs2 ?w) \<rparr>"
    using add_back_Some[OF assms(1,2)] assms(3) by simp
  have dtc: "doc_topic_counts s = map (counter_row (K s)) ?zs"
    using co by (simp add: counts_ok_def without_def)
  have a: "doc_topic_counts s2 = map (counter_row (K s)) ?zs2"
    by (simp add: s2 dtc map_update)
  have b: "term_topic_count s2 w = tally_row (K s) (texts s) ?zs2 w" if "w \<in> set (tokens s)" for w
  proof (cases "w = ?w")
    case True
    then show ?thesis by (simp add: s2)
  next
    case False
    have "term_topic_count s w = tally_row (K s) ?txt ?zs w"
      using co that by (simp add: counts_ok_def list_all_iff without_def)
    then show ?thesis
      using False d i D(1,2) lenz
      by (simp add: s2 tally_row_other_add)
  qed
  have co2: "counts_ok s2"
    using a b by (simp add: counts_ok_def list_all_iff s2)
  have l2: "list_all2 (\<lambda>topics doc. length topics = length doc) ?zs2 (texts s)"
  proof -
    have "length (?zs2 ! j) = length (texts s ! j)" if "j < length (texts s)" for j
      using that D(1,2) sh
      by (cases "j = d") (simp_all add: shape_ok_def list_all2_conv_all_nth)
    then show ?thesis using lenz by (simp add: list_all2_conv_all_nth)
  qed
  have "list_all (\<lambda>t. int t < K s) (?zs2 ! j)" if "j < length (doc_topic s)" for j
  proof -
    have old: "list_all (\<lambda>t. int t < K s) (doc_topic s ! j)"
      using sh that by (simp add: shape_ok_def list_all_length)
    show ?thesis
    proof (cases "j = d")
      case True
      have n: "int new < K s" using assms(2) by linarith
      have "set ((doc_topic s ! d)[i := new]) \<subseteq> insert new (set (doc_topic s ! d))"
        by (rule set_update_subset_insert)
      with old True that n show ?thesis
        by (auto simp: list_all_iff)
    next
      case False
      with old show ?thesis by simp
    qed
  qed
  then have l3: "list_all (list_all (\<lambda>t. int t < K s)) ?zs2"
    by (simp add: list_all_length)
  have "shape_ok s2"
    using sh l2 l3 by (simp add: shape_ok_def s2)
  with co2 show ?thesis by (simp add: wf_def)
qed

subsection \<open>The normalised weights are a probability vector\<close>

lemma tally_nonneg: "0 \<le> tally txt zs w k"
  unfolding tally_def by (rule sum_list_nonneg) auto

lemma col_sum_counter_nonneg:
  assumes "j < nat k"
  shows "0 \<le> col_sum (map (counter_row k) zs) j"
  unfolding col_sum_def using assms
  by (intro sum_list_nonneg) (auto simp: counter_row_nth)

lemma sum_list_counter_row_nonneg: "0 \<le> sum_list (counter_row k ts)"
  unfolding counter_row_def by (rule sum_list_nonneg) auto

lemma weights_length: "length (weights s d w) = nat (K s)"
  by (simp add: weights_def word_given_topic_def topic_given_doc_def)

lemma weights_nth:
  "j < nat (K s) \<Longrightarrow> weights s d w ! j =
     ((real_of_int (term_topic_count s w ! j) + beta s) /
        (real_of_int (col_sum (doc_topic_counts s) j) + real (V s) * beta s)) *
     ((real_of_int (doc_topic_counts s ! d ! j) + alpha s) /
        (real_of_int (sum_list (doc_topic_counts s ! d)) + real_of_int (K s) * alpha s))"
  by (simp add: weights_def word_given_topic_def topic_given_doc_def)

lemma mid_weights_pos:
  assumes "mid d i s" "j < nat (K s)"
  shows "0 < weights s d (texts s ! d ! i) ! j"
proof -
  have sh: "shape_ok s" and co: "counts_ok (without d i s)"
    and d: "d < length (texts s)" and i: "i < length (texts s ! d)"
    using assms(1) by (simp_all add: mid_def)
  note D = shape_okD[OF sh d]
  let ?w = "texts s ! d ! i"
  let ?txt = "(texts s)[d := drop_nth i (texts s ! d)]"
  let ?zs = "(doc_topic s)[d := drop_nth i (doc_topic s ! d)]"
  have w: "?w \<in> set (tokens s)" by (rule D(4)[OF i])
  have dtc: "doc_topic_counts s = map (counter_row (K s)) ?zs"
    using co by (simp add: counts_ok_def without_def)
  have row: "doc_topic_counts s ! d = counter_row (K s) (drop_nth i (doc_topic s ! d))"
    using D(1) by (simp add: dtc)
  have trow: "term_topic_count s ?w = tally_row (K s) ?txt ?zs ?w"
    using co w by (simp add: counts_ok_def list_all_iff without_def)
  have a: "0 \<le> term_topic_count s ?w ! j"
    using assms(2) by (simp add: trow tally_row_nth tally_nonneg)
  have b: "0 \<le> col_sum (doc_topic_counts s) j"
    unfolding dtc by (rule col_sum_counter_nonneg[OF assms(2)])
  have c: "0 \<le> doc_topic_counts s ! d ! j"
    using assms(2) by (simp add: row counter_row_nth)
  have e: "0 \<le> sum_list (doc_topic_counts s ! d)"
    by (simp add: row sum_list_counter_row_nonneg)
  have v: "0 < V s" using sh w by (auto simp: shape_ok_def)
  have al: "0 < alpha s" and be: "0 < beta s" and k: "1 \<le> K s"
    using sh by (simp_all add: shape_ok_def)
  have n1: "0 < real_of_int (term_topic_count s ?w ! j) + beta s" using a be by simp
  have vb: "0 < real (V s) * beta s" using v be by simp
  have n2: "0 < real_of_int (col_sum (doc_topic_counts s) j) + real (V s) * beta s"
    using b vb by simp
  have n3: "0 < real_of_int (doc_topic_counts s ! d ! j) + alpha s" using c al by simp
  have ka: "0 < real_of_int (K s) * alpha s" using k al by simp
  have n4: "0 < real_of_int (sum_list (doc_topic_counts s ! d)) + real_of_int (K s) * alpha s"
    using e ka by simp
  show ?thesis
    unfolding weights_nth[OF assms(2)]
    by (intro mult_pos_pos divide_pos_pos n1 n2 n3 n4)
qed

lemma sum_list_pos_real:
  fixes xs :: "real list"
  assumes "xs \<noteq> []" "\<And>x. x \<in> set xs \<Longrightarrow> 0 < x"
  shows "0 < sum_list xs"
  using assms
proof (induction xs)
  case Nil
  then show ?case by simp
next
  case (Cons x xs)
  have x: "0 < x" using Cons.prems(2) by simp
  have "0 \<le> sum_list xs" using Cons.prems(2) by (intro sum_list_nonneg) (simp add: less_imp_le)
  with x show ?case by simp
qed

lemma normalize_prob_vector:
  assumes "ws \<noteq> []" "\<And>x. x \<in> set ws \<Longrightarrow> 0 < x"
  shows "prob_vector (normalize_weights ws)"
proof -
  have pos: "0 < sum_list ws" by (rule sum_list_pos_real[OF assms])
  have "sum_list (map (\<lambda>x. x / sum_list ws) ws) = sum_list ws / sum_list ws"
    by (simp add: divide_inverse sum_list_mult_const)
  then have one: "sum_list (normalize_weights ws) = 1" using pos by (simp add: normalize_weights_def)
  have "list_all (\<lambda>x. 0 \<le> x) (normalize_weights ws)"
    using assms(2) pos by (auto simp: normalize_weights_def list_all_iff less_imp_le)
  with one assms(1) show ?thesis by (simp add: prob_vector_def normalize_weights_def)
qed

lemma mid_prob_vector:
  assumes "mid d i s"
  shows "prob_vector (normalize_weights (weights s d (texts s ! d ! i)))"
proof (rule normalize_prob_vector)
  have "1 \<le> K s" using assms by (simp add: mid_def shape_ok_def)
  then have "0 < length (weights s d (texts s ! d ! i))" by (simp add: weights_length)
  then show "weights s d (texts s ! d ! i) \<noteq> []" by auto
next
  fix x assume "x \<in> set (weights s d (texts s ! d ! i))"
  then obtain j where "j < nat (K s)" "x = weights s d (texts s ! d ! i) ! j"
    by (auto simp: in_set_conv_nth weights_length)
  then show "0 < x" using mid_weights_pos[OF assms] by simp
qed

lemma normalize_length: "length (normalize_weights ws) = length ws"
  by (simp add: normalize_weights_def)

lemma resample_one_wf:
  assumes R: "runtime_ok R" and wf: "wf s"
    and d: "d < length (texts s)" and i: "i < length (texts s ! d)"
  shows "\<exists>g' s2. resample_one R d (i, texts s ! d ! i) (g, s) = Some (g', s2) \<and> wf s2 \<and>
           texts s2 = texts s \<and> tokens s2 = tokens s \<and> K s2 = K s \<and> V s2 = V s \<and>
           alpha s2 = alpha s \<and> beta s2 = beta s \<and>
           perplexity_scores s2 = perplexity_scores s"
proof -
  let ?w = "texts s ! d ! i"
  obtain s1 where s1: "remove d i ?w s = Some s1"
    using remove_Some[OF wf d i] by simp
  note F1 = remove_frame[OF s1]
  have m: "mid d i s1" by (rule remove_mid[OF wf d i s1])
  let ?p = "normalize_weights (weights s1 d ?w)"
  obtain new g' where dr: "multinomial1 R ?p g = (new, g')" by (cases "multinomial1 R ?p g")
  have "prob_vector ?p" using mid_prob_vector[OF m] by (simp add: F1)
  then have "fst (multinomial1 R ?p g) < length ?p"
    using R by (simp add: runtime_ok_def)
  then have new: "new < nat (K s1)"
    by (simp add: dr normalize_length weights_length)
  obtain s2 where s2: "add_back d i (texts s1 ! d ! i) new s1 = Some s2"
    using add_back_Some[OF m new] by simp
  have wf2: "wf s2" by (rule add_back_wf[OF m new s2])
  note F2 = add_back_frame[OF s2]
  have "resample_one R d (i, ?w) (g, s) = Some (g', s2)"
    using s1 dr s2 by (simp add: resample_one_def F1)
  then show ?thesis using wf2 F1 F2 by simp
qed

subsection \<open>Whole sweeps\<close>

lemma store_back_id: "store_back d gs = gs"
  by (cases gs) (simp add: store_back_def)

lemma in_set_enumerate0: "(i, x) \<in> set (enumerate 0 xs) \<Longrightarrow> i < length xs \<and> x = xs ! i"
  by (auto simp: in_set_enumerate_eq)

subsection \<open>The constructor establishes the invariant\<close>

lemma draw_docs_ok:
  fixes R :: "'g runtime"
  assumes "runtime_ok R" "1 \<le> k" "k \<le> 2 ^ 63"
  shows "\<exists>zs g'. draw_docs R k docs g = Some (zs, g') \<and>
           list_all2 (\<lambda>topics doc. length topics = length doc) zs docs \<and>
           list_all (list_all (\<lambda>t. int t < k)) zs"
proof (induction docs arbitrary: g)
  case Nil
  then show ?case by simp
next
  case (Cons x xs)
  obtain t g1 where r: "randint R k (length x) g = (t, g1)" by (cases "randint R k (length x) g")
  have c: "length (fst (randint R k (length x) g)) = length x \<and>
      list_all (\<lambda>x. int x < k) (fst (randint R k (length x) g))"
    using assms by (simp add: runtime_ok_def)
  from Cons.IH[of g1] obtain zs g' where ih: "draw_docs R k xs g1 = Some (zs, g')"
    "list_all2 (\<lambda>topics doc. length topics = length doc) zs xs"
    "list_all (list_all (\<lambda>t. int t < k)) zs" by blast
  have "draw_docs R k (x # xs) g = Some (t # zs, g')"
    using assms(2,3) r ih(1) by (simp add: np_randint_def)
  then show ?case using c ih(2,3) by (simp add: r)
qed

lemma count_list_zip_swap: "count_list (zip xs ys) (a, b) = count_list (zip ys xs) (b, a)"
proof (induction xs arbitrary: ys)
  case Nil
  then show ?case by simp
next
  case (Cons x xs)
  then show ?case by (cases ys) auto
qed

text \<open>The inner tally loop adds to every entry the number of its pairs.\<close>

lemma tally_inner:
  assumes "\<And>w. length (t w) = n"
    and "\<And>topic word. (topic, word) \<in> set ps \<Longrightarrow> word \<in> set toks \<and> topic < n"
  shows "for_loop (\<lambda>(topic, word) t. term_loc_add toks t word topic 1) ps t =
     Some (\<lambda>w. map (\<lambda>j. t w ! j + int (count_list ps (j, w))) [0..<n])"
  using assms
proof (induction ps arbitrary: t)
  case Nil
  have "t w = map (\<lambda>j. t w ! j) [0..<n]" for w
    using Nil(1)[of w] map_nth[of "t w"] by simp
  then show ?case by (simp add: fun_eq_iff)
next
  case (Cons p ps)
  obtain topic word where p: "p = (topic, word)" by (cases p)
  have pw: "word \<in> set toks" "topic < n" using Cons.prems(2)[of topic word] by (simp_all add: p)
  let ?t1 = "t(word := (t word)[topic := t word ! topic + 1])"
  have step: "term_loc_add toks t word topic 1 = Some ?t1"
    using pw Cons.prems(1) by (simp add: term_loc_add_def)
  have len1: "length (?t1 w) = n" for w using Cons.prems(1) by simp
  have rest: "for_loop (\<lambda>(topic, word) t. term_loc_add toks t word topic 1) ps ?t1 =
     Some (\<lambda>w. map (\<lambda>j. ?t1 w ! j + int (count_list ps (j, w))) [0..<n])"
    by (rule Cons.IH[OF len1]) (use Cons.prems(2) in auto)
  have eq: "(\<lambda>w. map (\<lambda>j. ?t1 w ! j + int (count_list ps (j, w))) [0..<n])
      = (\<lambda>w. map (\<lambda>j. t w ! j + int (count_list (p # ps) (j, w))) [0..<n])"
  proof (rule ext)
    fix w
    show "map (\<lambda>j. ?t1 w ! j + int (count_list ps (j, w))) [0..<n]
      = map (\<lambda>j. t w ! j + int (count_list (p # ps) (j, w))) [0..<n]"
      using Cons.prems(1)[of word] by (auto simp: p nth_list_update)
  qed
  have "for_loop (\<lambda>(topic, word) t. term_loc_add toks t word topic 1) (p # ps) t
      = for_loop (\<lambda>(topic, word) t. term_loc_add toks t word topic 1) ps ?t1"
    by (simp add: p step)
  then show ?case by (simp only: rest eq)
qed

lemma tally_outer:
  assumes "\<And>w. length (t w) = n"
    and "\<And>topics doc topic word. (topics, doc) \<in> set dps \<Longrightarrow> (topic, word) \<in> set (zip topics doc)
           \<Longrightarrow> word \<in> set toks \<and> topic < n"
  shows "for_loop (tally_doc toks) dps t =
     Some (\<lambda>w. map (\<lambda>j. t w ! j +
        sum_list (map (\<lambda>(topics, doc). int (count_list (zip topics doc) (j, w))) dps)) [0..<n])"
  using assms
proof (induction dps arbitrary: t)
  case Nil
  have "t w = map (\<lambda>j. t w ! j) [0..<n]" for w
    using Nil(1)[of w] map_nth[of "t w"] by simp
  then show ?case by (simp add: fun_eq_iff)
next
  case (Cons p dps)
  obtain topics doc where p: "p = (topics, doc)" by (cases p)
  let ?t1 = "\<lambda>w. map (\<lambda>j. t w ! j + int (count_list (zip topics doc) (j, w))) [0..<n]"
  have step: "tally_doc toks p t = Some ?t1"
    unfolding p tally_doc_def prod.case
    by (rule tally_inner[OF Cons.prems(1)]) (use Cons.prems(2)[of topics doc] p in auto)
  have len1: "length (?t1 w) = n" for w by simp
  have rest: "for_loop (tally_doc toks) dps ?t1 =
     Some (\<lambda>w. map (\<lambda>j. ?t1 w ! j +
        sum_list (map (\<lambda>(topics, doc). int (count_list (zip topics doc) (j, w))) dps)) [0..<n])"
    by (rule Cons.IH[OF len1]) (use Cons.prems(2) in auto)
  have eq: "(\<lambda>w. map (\<lambda>j. ?t1 w ! j +
        sum_list (map (\<lambda>(topics, doc). int (count_list (zip topics doc) (j, w))) dps)) [0..<n])
     = (\<lambda>w. map (\<lambda>j. t w ! j +
        sum_list (map (\<lambda>(topics, doc). int (count_list (zip topics doc) (j, w))) (p # dps))) [0..<n])"
  proof (rule ext)
    fix w
    show "map (\<lambda>j. ?t1 w ! j +
        sum_list (map (\<lambda>(topics, doc). int (count_list (zip topics doc) (j, w))) dps)) [0..<n]
     = map (\<lambda>j. t w ! j +
        sum_list (map (\<lambda>(topics, doc). int (count_list (zip topics doc) (j, w))) (p # dps))) [0..<n]"
      by (simp add: p)
  qed
  have "for_loop (tally_doc toks) (p # dps) t = for_loop (tally_doc toks) dps ?t1"
    by (simp add: step)
  then show ?case by (simp only: rest eq)
qed

lemma tally_swap:
  "sum_list (map (\<lambda>(topics, doc). int (count_list (zip topics doc) (j, w))) (zip zs docs))
     = tally docs zs w j"
proof -
  have "zip zs docs = map (\<lambda>(x, y). (y, x)) (zip docs zs)" by (rule zip_commute)
  then show ?thesis
    by (simp add: tally_def o_def case_prod_unfold count_list_zip_swap[of _ _ j w])
qed

lemma in_set_zip_lists:
  assumes "(topics, doc) \<in> set (zip zs docs)" "(topic, word) \<in> set (zip topics doc)"
  shows "word \<in> set (concat docs)" "topic \<in> set topics" "topics \<in> set zs"
  using assms by (auto dest: set_zip_leftD set_zip_rightD)

lemma Gibbs_init_wf:
  fixes R :: "'g runtime"
  assumes R: "runtime_ok R" and k: "1 \<le> k" and v: "concat docs \<noteq> []"
    and sz: "8 * int (length (set_list R (concat docs))) * k < 2 ^ 63"
  shows "\<exists>g' s. Gibbs_init R g docs k = Some (g', s) \<and> wf s \<and> texts s = docs \<and> K s = k \<and>
           tokens s = set_list R (concat docs) \<and> alpha s = 50 / real_of_int k \<and>
           beta s = 200 / real (V s) \<and> perplexity_scores s = []"
proof -
  let ?toks = "set_list R (concat docs)"
  have toks: "distinct ?toks" "set ?toks = set (concat docs)"
    using R by (simp_all add: runtime_ok_def)
  have ne: "?toks \<noteq> []" using toks(2) v by (metis set_empty)
  then have "1 \<le> int (length ?toks)" by (cases ?toks) simp_all
  then have "k \<le> int (length ?toks) * k" using k by (simp add: mult_le_cancel_right1)
  then have kb: "k < 2 ^ 63" using sz k by linarith
  then have kb': "k \<le> 2 ^ 63" by simp
  obtain zs g1 where dr: "draw_docs R k docs g = Some (zs, g1)"
    and l2: "list_all2 (\<lambda>topics doc. length topics = length doc) zs docs"
    and l3: "list_all (list_all (\<lambda>t. int t < k)) zs"
    using draw_docs_ok[OF R k kb', of docs g] by blast
  have z: "np_zeros (length ?toks) k = Some (\<lambda>w. replicate (nat k) 0)"
    using k kb sz by (simp add: np_zeros_def)
  have lp: "for_loop (tally_doc ?toks) (zip zs docs) (\<lambda>w. replicate (nat k) 0) =
     Some (\<lambda>w. map (\<lambda>j. (\<lambda>w. replicate (nat k) 0) w ! j +
        sum_list (map (\<lambda>(topics, doc). int (count_list (zip topics doc) (j, w))) (zip zs docs))) [0..<nat k])"
  proof (rule tally_outer)
    show "length (replicate (nat k) (0::int)) = nat k" for w :: string by simp
  next
    fix topics doc topic word
    assume a: "(topics, doc) \<in> set (zip zs docs)" "(topic, word) \<in> set (zip topics doc)"
    note I = in_set_zip_lists[OF a]
    have "int topic < k" using l3 I(2,3) by (auto simp: list_all_iff)
    then show "word \<in> set ?toks \<and> topic < nat k" using I(1) toks(2) by simp
  qed
  have ttc: "(\<lambda>w. map (\<lambda>j. (\<lambda>w. replicate (nat k) 0) w ! j +
        sum_list (map (\<lambda>(topics, doc). int (count_list (zip topics doc) (j, w))) (zip zs docs))) [0..<nat k])
      = (\<lambda>w. tally_row k docs zs w)"
    by (rule ext) (simp add: tally_row_def tally_swap)
  have a: "py_div 50 (real_of_int k) = Some (50 / real_of_int k)"
    using k by (simp add: py_div_def)
  have b: "py_div 200 (real (length ?toks)) = Some (200 / real (length ?toks))"
    using ne by (simp add: py_div_def)
  let ?s = "\<lparr> tokens = ?toks, V = length ?toks, K = k, texts = docs,
              doc_topic = zs, doc_topic_counts = map (counter_row k) zs,
              term_topic_count = (\<lambda>w. tally_row k docs zs w), alpha = 50 / real_of_int k,
              beta = 200 / real (length ?toks), perplexity_scores = [] \<rparr>"
  have init: "Gibbs_init R g docs k = Some (g1, ?s)"
    by (simp add: Gibbs_init_def Let_def dr z lp ttc a b)
  have "list_all (\<lambda>w. w \<in> set ?toks) (concat docs)"
    using toks(2) by (simp add: list_all_iff)
  moreover have "length zs = length docs" using l2 by (rule list_all2_lengthD)
  moreover have "0 < 50 / real_of_int k" using k by simp
  moreover have "0 < 200 / real (length ?toks)" using ne by simp
  ultimately have "shape_ok ?s"
    using toks(1) l2 l3 k by (simp add: shape_ok_def)
  moreover have "counts_ok ?s" by (simp add: counts_ok_def list_all_iff)
  ultimately have "wf ?s" by (simp add: wf_def)
  with init show ?thesis by simp
qed

subsection \<open>The perplexity score refines its specification\<close>

lemma for_loop_accumulate:
  fixes f :: "'a \<Rightarrow> real"
  assumes "\<And>x. x \<in> set xs \<Longrightarrow> P x"
  shows "for_loop (\<lambda>x acc. if P x then Some (acc + f x) else None) xs a =
     Some (a + sum_list (map f xs))"
  using assms by (induction xs arbitrary: a) (simp_all add: add.assoc)

lemma apply_rows_Some:
  assumes "\<And>x. x \<in> set xs \<Longrightarrow> f x = Some (h x)"
  shows "apply_rows f xs = Some (map h xs)"
  using assms by (induction xs) simp_all

lemma enumerate0_map: "enumerate 0 xs = map (\<lambda>i. (i, xs ! i)) [0..<length xs]"
  by (rule nth_equalityI) (simp_all add: nth_enumerate_eq)

lemma sum_list_upt: "sum_list (map f [0..<n]) = (\<Sum>i<n. f i)"
  by (simp add: interv_sum_list_conv_sum_set_nat atLeast0LessThan)

lemma sum_list_nth_real:
  fixes xs :: "real list"
  shows "sum_list xs = (\<Sum>i<length xs. xs ! i)"
  by (simp add: sum_list_sum_nth atLeast0LessThan)

lemma map2_upt:
  assumes "length ys = n"
  shows "map2 f (map g [0..<n]) ys = map (\<lambda>j. f (g j) (ys ! j)) [0..<n]"
  using assms by (intro nth_equalityI) simp_all

lemma dt_row_nth:
  assumes "k < length row"
  shows "dt_row s row ! k =
    (real_of_int (row ! k) + alpha s) / (\<Sum>k' < length row. real_of_int (row ! k') + alpha s)"
proof -
  have "sum_list (map (\<lambda>c. real_of_int c + alpha s) row)
      = (\<Sum>k' < length row. real_of_int (row ! k') + alpha s)"
    by (simp add: sum_list_nth_real)
  then show ?thesis using assms by (simp add: dt_row_def Let_def)
qed

lemma dt_row_length: "length (dt_row s row) = length row"
  by (simp add: dt_row_def Let_def)

lemma wf_rows:
  assumes "wf s" "d < length (texts s)"
  shows "d < length (doc_topic_counts s)" "length (doc_topic_counts s ! d) = nat (K s)"
proof -
  have sh: "shape_ok s" and co: "counts_ok s" using assms(1) by (simp_all add: wf_def)
  have dtc: "doc_topic_counts s = map (counter_row (K s)) (doc_topic s)"
    using co by (simp add: counts_ok_def)
  have d: "d < length (doc_topic s)" by (rule shape_okD(1)[OF sh assms(2)])
  show "d < length (doc_topic_counts s)" using d by (simp add: dtc)
  show "length (doc_topic_counts s ! d) = nat (K s)" using d by (simp add: dtc)
qed

lemma word_likelihood:
  assumes "wf s" "d < length (texts s)"
  shows "sum_list (map2 (*) (tt s w) (dt s ! d)) = (\<Sum>k < nat (K s). tt_spec s w k * dt_spec s d k)"
proof -
  note W = wf_rows[OF assms]
  have dist: "distinct (tokens s)" using assms(1) by (simp add: wf_def shape_ok_def)
  have ts: "tt_sum s j = (\<Sum>w' \<in> set (tokens s). real_of_int (term_topic_count s w' ! j) + beta s)" for j
    by (simp add: tt_sum_def sum_list_distinct_conv_sum_set[OF dist])
  have len: "length (dt s ! d) = nat (K s)" using W by (simp add: dt_def dt_row_length)
  have dtn: "dt s ! d ! k = dt_spec s d k" if "k < nat (K s)" for k
    using W that by (simp add: dt_def dt_row_nth dt_spec_def)
  have "map2 (*) (tt s w) (dt s ! d)
      = map (\<lambda>j. (real_of_int (term_topic_count s w ! j) + beta s) / tt_sum s j * (dt s ! d ! j)) [0..<nat (K s)]"
    unfolding tt_def by (rule map2_upt[OF len])
  also have "\<dots> = map (\<lambda>j. tt_spec s w j * dt_spec s d j) [0..<nat (K s)]"
    by (simp add: ts tt_spec_def dtn)
  finally show ?thesis by (simp add: sum_list_upt)
qed

lemma prob_Some:
  assumes "wf s" "d < length (texts s)"
  shows "prob s (d, texts s ! d) =
    Some (\<Sum>i < length (texts s ! d). ln (\<Sum>k < nat (K s). tt_spec s (texts s ! d ! i) k * dt_spec s d k))"
proof -
  have sh: "shape_ok s" using assms(1) by (simp add: wf_def)
  have d: "d < length (dt s)" using wf_rows(1)[OF assms] by (simp add: dt_def)
  have P: "x \<in> set (tokens s) \<and> d < length (dt s)" if xin: "x \<in> set (texts s ! d)" for x
  proof -
    obtain i where "i < length (texts s ! d)" "x = texts s ! d ! i"
      using xin by (auto simp: in_set_conv_nth)
    then show ?thesis using shape_okD(4)[OF sh assms(2)] d by simp
  qed
  have "prob s (d, texts s ! d) =
      Some (0 + sum_list (map (\<lambda>each. ln (sum_list (map2 (*) (tt s each) (dt s ! d)))) (texts s ! d)))"
    unfolding prob_def prod.case by (rule for_loop_accumulate[OF P])
  also have "sum_list (map (\<lambda>each. ln (sum_list (map2 (*) (tt s each) (dt s ! d)))) (texts s ! d))
      = (\<Sum>i < length (texts s ! d). ln (\<Sum>k < nat (K s). tt_spec s (texts s ! d ! i) k * dt_spec s d k))"
    unfolding word_likelihood[OF assms] by (simp add: sum_list_nth_real)
  finally show ?thesis by simp
qed

lemma perplexity_Some:
  assumes "wf s"
  shows "perplexity (g, s) =
    Some (g, s\<lparr> perplexity_scores := perplexity_scores s @ [perplexity_spec s] \<rparr>)"
proof -
  let ?h = "\<lambda>(d, doc :: string list). \<Sum>i < length (texts s ! d).
      ln (\<Sum>k < nat (K s). tt_spec s (texts s ! d ! i) k * dt_spec s d k)"
  have rows: "apply_rows (prob s) (enumerate 0 (texts s)) = Some (map ?h (enumerate 0 (texts s)))"
  proof (rule apply_rows_Some)
    fix x assume x: "x \<in> set (enumerate 0 (texts s))"
    obtain d doc where xe: "x = (d, doc)" by (cases x)
    have dd: "d < length (texts s)" "doc = texts s ! d"
      using in_set_enumerate0[OF x[unfolded xe]] by simp_all
    show "prob s x = Some (?h x)"
      using prob_Some[OF assms dd(1)] by (simp add: xe dd(2))
  qed
  have "sum_list (map ?h (enumerate 0 (texts s))) = log_likelihood_spec s"
    by (simp add: enumerate0_map o_def sum_list_upt log_likelihood_spec_def)
  then show ?thesis
    by (simp add: perplexity_def rows perplexity_spec_def length_concat)
qed

subsection \<open>Reachable states are well formed\<close>

lemma Gibbs_init_None_K:
  assumes "k \<le> 0"
  shows "Gibbs_init R g docs k = None"
proof (cases "k < 0")
  case True
  then show ?thesis
    by (simp add: Gibbs_init_def Let_def np_zeros_def bind_eq_None_conv case_prod_unfold)
next
  case False
  with assms have "k = 0" by simp
  then show ?thesis
    by (simp add: Gibbs_init_def Let_def py_div_def bind_eq_None_conv case_prod_unfold)
qed

lemma Gibbs_init_None_big:
  assumes "2 ^ 63 \<le> 8 * int (length (set_list R (concat docs))) * k"
  shows "Gibbs_init R g docs k = None"
  using assms
  by (simp add: Gibbs_init_def Let_def np_zeros_def bind_eq_None_conv case_prod_unfold)

lemma Gibbs_init_None_V:
  assumes "length (set_list R (concat docs)) = 0"
  shows "Gibbs_init R g docs k = None"
  using assms
  by (simp add: Gibbs_init_def Let_def py_div_def bind_eq_None_conv case_prod_unfold)

lemma Gibbs_init_Some_wf:
  fixes R :: "'g runtime"
  assumes "runtime_ok R" "Gibbs_init R g docs k = Some (g', s)"
  shows "wf s \<and> texts s = docs \<and> K s = k \<and> perplexity_scores s = []"
proof -
  have k: "1 \<le> k" using Gibbs_init_None_K[of k R g docs] assms(2) by (cases "k \<le> 0") simp_all
  have "length (set_list R (concat docs)) \<noteq> 0"
    using Gibbs_init_None_V[of R docs g k] assms(2) by auto
  then have "set (set_list R (concat docs)) \<noteq> {}" by simp
  moreover have "set (set_list R (concat docs)) = set (concat docs)"
    using assms(1) by (simp add: runtime_ok_def)
  ultimately have "set (concat docs) \<noteq> {}" by simp
  then have v: "concat docs \<noteq> []" by (simp only: set_empty not_False_eq_True)
  have sz: "8 * int (length (set_list R (concat docs))) * k < 2 ^ 63"
    using Gibbs_init_None_big[of R docs k g] assms(2)
    by (cases "2 ^ 63 \<le> 8 * int (length (set_list R (concat docs))) * k") simp_all
  from Gibbs_init_wf[OF assms(1) k v sz, of g] assms(2) show ?thesis by auto
qed

lemma reachable_wf:
  fixes R :: "'g runtime"
  assumes "runtime_ok R" "reachable R docs k gs"
  shows "wf (snd gs) \<and> texts (snd gs) = docs \<and> K (snd gs) = k"
  using assms(2)
proof (induction rule: reachable.induct)
  case (constructed g gs)
  then show ?case using Gibbs_init_Some_wf[OF assms(1), of g docs k "fst gs" "snd gs"] by simp
next
  case (resampled gs d i gs')
  obtain g s where gs: "gs = (g, s)" by (cases gs)
  have wf: "wf s" and t: "texts s = docs" and kk: "K s = k" using resampled.IH by (simp_all add: gs)
  from resample_one_wf[OF assms(1) wf, of d i g] resampled.hyps(2,3,4) t kk
  show ?case by (auto simp: gs)
next
  case (evaluated gs gs')
  obtain g s where gs: "gs = (g, s)" by (cases gs)
  have wf: "wf s" and t: "texts s = docs" and kk: "K s = k" using evaluated.IH by (simp_all add: gs)
  have "gs' = (g, s\<lparr> perplexity_scores := perplexity_scores s @ [perplexity_spec s] \<rparr>)"
    using perplexity_Some[OF wf, of g] evaluated.hyps(2) by (simp add: gs)
  then show ?case using wf t kk by (simp add: wf_def shape_ok_def counts_ok_def)
qed

subsection \<open>Row sums, column sums and totals\<close>

lemma shape_ok_without:
  assumes sh: "shape_ok s" and d: "d < length (texts s)" and i: "i < length (texts s ! d)"
  shows "shape_ok (without d i s)"
proof -
  note D = shape_okD[OF sh d]
  let ?txt = "(texts s)[d := drop_nth i (texts s ! d)]"
  let ?zs = "(doc_topic s)[d := drop_nth i (doc_topic s ! d)]"
  have lenz: "length (doc_topic s) = length (texts s)" using sh by (simp add: shape_ok_def)
  have a: "list_all2 (\<lambda>topics doc. length topics = length doc) ?zs ?txt"
  proof -
    have "length (?zs ! j) = length (?txt ! j)" if "j < length (texts s)" for j
      using that D(1,2) i sh
      by (cases "j = d") (simp_all add: shape_ok_def list_all2_conv_all_nth drop_nth_length)
    then show ?thesis using lenz by (simp add: list_all2_conv_all_nth)
  qed
  have b: "list_all (list_all (\<lambda>t. int t < K s)) ?zs"
  proof -
    have "list_all (\<lambda>t. int t < K s) (?zs ! j)" if "j < length (doc_topic s)" for j
    proof -
      have old: "list_all (\<lambda>t. int t < K s) (doc_topic s ! j)"
        using sh that by (simp add: shape_ok_def list_all_length)
      show ?thesis
      proof (cases "j = d")
        case True
        with old that set_drop_nth[of i "doc_topic s ! d"] show ?thesis
          by (auto simp: list_all_iff)
      next
        case False
        with old show ?thesis by simp
      qed
    qed
    then show ?thesis by (simp add: list_all_length)
  qed
  have c: "list_all (\<lambda>w. w \<in> set (tokens s)) (concat ?txt)"
  proof -
    have "w \<in> set (tokens s)" if "w \<in> set (concat ?txt)" for w
    proof -
      from that obtain doc where doc: "doc \<in> set ?txt" "w \<in> set doc" by auto
      from doc(1) have "doc \<in> insert (drop_nth i (texts s ! d)) (set (texts s))"
        using set_update_subset_insert by fastforce
      then have "w \<in> set (concat (texts s))"
        using doc(2) set_drop_nth[of i "texts s ! d"] d by (auto simp: nth_mem)
      then show ?thesis using sh by (auto simp: shape_ok_def list_all_iff)
    qed
    then show ?thesis by (simp add: list_all_iff)
  qed
  show ?thesis using sh a b c lenz by (simp add: shape_ok_def without_def)
qed

lemma mid_wf_without: "mid d i s \<Longrightarrow> wf (without d i s)"
  using shape_ok_without by (simp add: mid_def wf_def)

lemma sum_list_counter_row:
  assumes "list_all (\<lambda>t. int t < k) ts"
  shows "sum_list (counter_row k ts) = int (length ts)"
proof -
  have sub: "set ts \<subseteq> {..<nat k}" using assms by (auto simp: list_all_iff)
  have "sum_list (counter_row k ts) = int (\<Sum>j<nat k. count_list ts j)"
    by (simp add: counter_row_def sum_list_upt)
  also have "(\<Sum>j<nat k. count_list ts j) = length ts"
    by (rule sum_count_set[OF sub]) simp
  finally show ?thesis .
qed

lemma wf_row_sums:
  assumes "wf s"
  shows "map sum_list (doc_topic_counts s) = map (\<lambda>doc. int (length doc)) (texts s)"
proof -
  have sh: "shape_ok s" and co: "counts_ok s" using assms by (simp_all add: wf_def)
  have dtc: "doc_topic_counts s = map (counter_row (K s)) (doc_topic s)"
    using co by (simp add: counts_ok_def)
  have lenz: "length (doc_topic s) = length (texts s)" using sh by (simp add: shape_ok_def)
  show ?thesis
  proof (rule nth_equalityI)
    show "length (map sum_list (doc_topic_counts s)) = length (map (\<lambda>doc. int (length doc)) (texts s))"
      by (simp add: dtc lenz)
  next
    fix d assume "d < length (map sum_list (doc_topic_counts s))"
    then have d: "d < length (texts s)" by (simp add: dtc lenz)
    note D = shape_okD[OF sh d]
    have "list_all (\<lambda>t. int t < K s) (doc_topic s ! d)"
      using sh D(1) by (simp add: shape_ok_def list_all_length)
    then show "map sum_list (doc_topic_counts s) ! d = map (\<lambda>doc. int (length doc)) (texts s) ! d"
      using d D(1,2) by (simp add: dtc sum_list_counter_row)
  qed
qed

lemma sum_list_indicator:
  assumes "distinct ws" "x \<in> set ws"
  shows "sum_list (map (\<lambda>w. if x = w \<and> P then (1::int) else 0) ws) = (if P then 1 else 0)"
proof (cases P)
  case True
  have "sum_list (map (\<lambda>w. if x = w then (1::int) else 0) ws) = (\<Sum>w\<in>set ws. if x = w then 1 else 0)"
    by (rule sum_list_distinct_conv_sum_set[OF assms(1)])
  also have "\<dots> = 1" using assms(2) by simp
  finally show ?thesis using True by simp
next
  case False
  then show ?thesis by simp
qed

lemma sum_list_swap_int:
  fixes f :: "'a \<Rightarrow> 'b \<Rightarrow> int"
  shows "sum_list (map (\<lambda>w. sum_list (map (f w) ps)) ws)
       = sum_list (map (\<lambda>p. sum_list (map (\<lambda>w. f w p) ws)) ps)"
  by (induction ws) (simp_all add: sum_list_addf)

lemma doc_column:
  assumes "distinct toks" "set doc \<subseteq> set toks" "length doc = length ts"
  shows "sum_list (map (\<lambda>w. int (count_list (zip doc ts) (w, j))) toks) = int (count_list ts j)"
  using assms(3,2)
proof (induction doc ts rule: list_induct2)
  case Nil
  then show ?case by simp
next
  case (Cons x xs t ts)
  have x: "x \<in> set toks" and xs: "set xs \<subseteq> set toks" using Cons.prems by simp_all
  have "sum_list (map (\<lambda>w. int (count_list (zip (x # xs) (t # ts)) (w, j))) toks)
      = sum_list (map (\<lambda>w. int (count_list (zip xs ts) (w, j)) + (if x = w \<and> t = j then 1 else 0)) toks)"
    by (rule arg_cong[where f = sum_list]) auto
  also have "\<dots> = int (count_list ts j) + (if t = j then 1 else 0)"
    by (simp only: sum_list_addf Cons.IH[OF xs] sum_list_indicator[OF assms(1) x])
  finally show ?case by simp
qed

lemma wf_col_sums:
  assumes "wf s" "j < nat (K s)"
  shows "col_sum (doc_topic_counts s) j = sum_list (map (\<lambda>w. term_topic_count s w ! j) (tokens s))"
proof -
  have sh: "shape_ok s" and co: "counts_ok s" using assms(1) by (simp_all add: wf_def)
  have dtc: "doc_topic_counts s = map (counter_row (K s)) (doc_topic s)"
    using co by (simp add: counts_ok_def)
  have lenz: "length (doc_topic s) = length (texts s)" using sh by (simp add: shape_ok_def)
  have dist: "distinct (tokens s)" using sh by (simp add: shape_ok_def)
  have "map (\<lambda>w. term_topic_count s w ! j) (tokens s)
      = map (\<lambda>w. sum_list (map (\<lambda>p. int (count_list (zip (fst p) (snd p)) (w, j)))
            (zip (texts s) (doc_topic s)))) (tokens s)"
    using co assms(2)
    by (auto simp: counts_ok_def list_all_iff tally_row_nth tally_def case_prod_unfold)
  then have "sum_list (map (\<lambda>w. term_topic_count s w ! j) (tokens s))
      = sum_list (map (\<lambda>w. sum_list (map (\<lambda>p. int (count_list (zip (fst p) (snd p)) (w, j)))
            (zip (texts s) (doc_topic s)))) (tokens s))"
    by (simp only:)
  also have "\<dots> = sum_list (map (\<lambda>p. sum_list (map (\<lambda>w. int (count_list (zip (fst p) (snd p)) (w, j)))
            (tokens s))) (zip (texts s) (doc_topic s)))"
    by (rule sum_list_swap_int)
  also have "\<dots> = sum_list (map (\<lambda>p. int (count_list (snd p) j)) (zip (texts s) (doc_topic s)))"
  proof (rule arg_cong[where f = sum_list], rule map_cong[OF refl])
    fix p assume p: "p \<in> set (zip (texts s) (doc_topic s))"
    then obtain d where d: "d < length (texts s)" "p = (texts s ! d, doc_topic s ! d)"
      by (auto simp: in_set_zip)
    note D = shape_okD[OF sh d(1)]
    have sub: "set (texts s ! d) \<subseteq> set (tokens s)"
      using D(4) by (auto simp: in_set_conv_nth)
    show "sum_list (map (\<lambda>w. int (count_list (zip (fst p) (snd p)) (w, j))) (tokens s))
        = int (count_list (snd p) j)"
      using doc_column[OF dist sub D(2)[symmetric], of j] by (simp add: d(2))
  qed
  also have "\<dots> = sum_list (map (\<lambda>ts. int (count_list ts j)) (map snd (zip (texts s) (doc_topic s))))"
    by (simp add: o_def)
  also have "map snd (zip (texts s) (doc_topic s)) = doc_topic s"
    using lenz by simp
  finally show ?thesis
    using assms(2) by (simp add: col_sum_def dtc o_def counter_row_nth)
qed

subsection \<open>The example runtime\<close>

lemma demo_randint_bound: "0 < high \<Longrightarrow> int (m mod nat high) < high"
proof -
  assume h: "0 < high"
  then have "m mod nat high < nat high" by simp
  then show ?thesis using h by linarith
qed

lemma demo_runtime_ok: "runtime_ok demo_runtime"
  by (auto simp: runtime_ok_def demo_runtime_def prob_vector_def list_all_iff demo_randint_bound)

lemma scenario_A_init:
  "map_option observe (Gibbs_init demo_runtime 0 scenario_A 2) =
     Some (4, [''a'', ''b'', ''c''], [[0, 1], [0, 1]], [[1, 1], [1, 1]], [[1, 0], [1, 1], [0, 1]])"
  by code_simp

subsection \<open>The two halves of a resample\<close>

lemma resample_one_steps:
  fixes R :: "'g runtime"
  assumes R: "runtime_ok R" and wf: "wf s"
    and d: "d < length (texts s)" and i: "i < length (texts s ! d)"
  shows "\<exists>s1 new g' s2. remove d i (texts s ! d ! i) s = Some s1 \<and> mid d i s1 \<and>
           multinomial1 R (normalize_weights (weights s1 d (texts s ! d ! i))) g = (new, g') \<and>
           new < nat (K s) \<and> add_back d i (texts s ! d ! i) new s1 = Some s2 \<and> wf s2 \<and>
           resample_one R d (i, texts s ! d ! i) (g, s) = Some (g', s2) \<and>
           texts s2 = texts s \<and> K s2 = K s"
proof -
  let ?w = "texts s ! d ! i"
  obtain s1 where s1: "remove d i ?w s = Some s1"
    using remove_Some[OF wf d i] by simp
  note F1 = remove_frame[OF s1]
  have m: "mid d i s1" by (rule remove_mid[OF wf d i s1])
  let ?p = "normalize_weights (weights s1 d ?w)"
  obtain new g' where dr: "multinomial1 R ?p g = (new, g')" by (cases "multinomial1 R ?p g")
  have "prob_vector ?p" using mid_prob_vector[OF m] by (simp add: F1)
  then have "fst (multinomial1 R ?p g) < length ?p"
    using R by (simp add: runtime_ok_def)
  then have new: "new < nat (K s1)"
    by (simp add: dr normalize_length weights_length)
  obtain s2 where s2: "add_back d i (texts s1 ! d ! i) new s1 = Some s2"
    using add_back_Some[OF m new] by simp
  have wf2: "wf s2" by (rule add_back_wf[OF m new s2])
  note F2 = add_back_frame[OF s2]
  have "resample_one R d (i, ?w) (g, s) = Some (g', s2)"
    using s1 dr s2 by (simp add: resample_one_def F1)
  then show ?thesis using s1 m dr new s2 wf2 F1 F2 by simp
qed

lemma mid_row_sums:
  assumes "mid d i s"
  shows "map sum_list (doc_topic_counts s) =
    (map (\<lambda>doc. int (length doc)) (texts s))[d := int (length (texts s ! d)) - 1]"
proof -
  have d: "d < length (texts s)" and i: "i < length (texts s ! d)"
    using assms by (simp_all add: mid_def)
  have "map sum_list (doc_topic_counts (without d i s)) =
      map (\<lambda>doc. int (length doc)) (texts (without d i s))"
    by (rule wf_row_sums[OF mid_wf_without[OF assms]])
  moreover have "int (length (drop_nth i (texts s ! d))) = int (length (texts s ! d)) - 1"
    using i by (simp add: drop_nth_length of_nat_diff)
  ultimately show ?thesis by (simp add: without_def map_update)
qed

lemma col_sum_nth: "col_sum m j = (\<Sum>d<length m. m ! d ! j)"
proof -
  have "map (\<lambda>row. row ! j) m = map (\<lambda>d. m ! d ! j) [0..<length m]"
    by (rule nth_equalityI) simp_all
  then show ?thesis by (simp add: col_sum_def sum_list_upt)
qed

lemma wf_col_sums_set:
  assumes "wf s" "j < nat (K s)"
  shows "col_sum (doc_topic_counts s) j = (\<Sum>w\<in>set (tokens s). term_topic_count s w ! j)"
proof -
  have dist: "distinct (tokens s)" using assms(1) by (simp add: wf_def shape_ok_def)
  show ?thesis
    using wf_col_sums[OF assms] by (simp add: sum_list_distinct_conv_sum_set[OF dist])
qed

lemma without_fields:
  "doc_topic_counts (without d i s) = doc_topic_counts s"
  "term_topic_count (without d i s) = term_topic_count s"
  "tokens (without d i s) = tokens s" "K (without d i s) = K s" "V (without d i s) = V s"
  "alpha (without d i s) = alpha s" "beta (without d i s) = beta s"
  by (simp_all add: without_def)

lemma mid_col_sums_set:
  assumes "mid d i s" "j < nat (K s)"
  shows "col_sum (doc_topic_counts s) j = (\<Sum>w\<in>set (tokens s). term_topic_count s w ! j)"
  using wf_col_sums_set[OF mid_wf_without[OF assms(1)], of j] assms(2)
  by (simp add: without_fields)

lemma sum_list_as_nth:
  fixes xs :: "int list"
  assumes "length xs = n"
  shows "sum_list xs = sum_list (map (\<lambda>j. xs ! j) [0..<n])"
  using assms map_nth[of xs] by simp

lemma wf_totals:
  assumes "wf s"
  shows "sum_list (map sum_list (doc_topic_counts s)) = int (length (concat (texts s)))"
    and "sum_list (map (\<lambda>w. sum_list (term_topic_count s w)) (tokens s)) =
         int (length (concat (texts s)))"
proof -
  have sh: "shape_ok s" and co: "counts_ok s" using assms by (simp_all add: wf_def)
  have dtc: "doc_topic_counts s = map (counter_row (K s)) (doc_topic s)"
    using co by (simp add: counts_ok_def)
  have "sum_list (map sum_list (doc_topic_counts s)) =
      sum_list (map (\<lambda>doc. int (length doc)) (texts s))"
    by (simp only: wf_row_sums[OF assms])
  also have "\<dots> = int (sum_list (map length (texts s)))"
    by (simp add: sum_list_of_nat[symmetric] o_def)
  finally show 1: "sum_list (map sum_list (doc_topic_counts s)) = int (length (concat (texts s)))"
    by (simp add: length_concat)
  have "map (\<lambda>w. sum_list (term_topic_count s w)) (tokens s) =
      map (\<lambda>w. sum_list (map (\<lambda>j. term_topic_count s w ! j) [0..<nat (K s)])) (tokens s)"
  proof (rule map_cong[OF refl])
    fix w assume "w \<in> set (tokens s)"
    then have "length (term_topic_count s w) = nat (K s)"
      using co by (simp add: counts_ok_def list_all_iff)
    then show "sum_list (term_topic_count s w) =
        sum_list (map (\<lambda>j. term_topic_count s w ! j) [0..<nat (K s)])"
      by (rule sum_list_as_nth)
  qed
  then have "sum_list (map (\<lambda>w. sum_list (term_topic_count s w)) (tokens s)) =
      sum_list (map (\<lambda>w. sum_list (map (\<lambda>j. term_topic_count s w ! j) [0..<nat (K s)])) (tokens s))"
    by (simp only:)
  also have "\<dots> = sum_list (map (\<lambda>j. sum_list (map (\<lambda>w. term_topic_count s w ! j) (tokens s)))
      [0..<nat (K s)])"
    by (rule sum_list_swap_int)
  also have "\<dots> = sum_list (map (\<lambda>j. col_sum (doc_topic_counts s) j) [0..<nat (K s)])"
    by (rule arg_cong[where f = sum_list], rule map_cong[OF refl])
      (simp add: wf_col_sums[OF assms])
  also have "\<dots> = sum_list (map (\<lambda>row. sum_list (map (\<lambda>j. row ! j) [0..<nat (K s)]))
      (doc_topic_counts s))"
    unfolding col_sum_def by (rule sum_list_swap_int[symmetric])
  also have "\<dots> = sum_list (map sum_list (doc_topic_counts s))"
  proof (rule arg_cong[where f = sum_list], rule map_cong[OF refl])
    fix row assume "row \<in> set (doc_topic_counts s)"
    then have "length row = nat (K s)" by (auto simp: dtc)
    then show "sum_list (map (\<lambda>j. row ! j) [0..<nat (K s)]) = sum_list row"
      by (rule sum_list_as_nth[symmetric])
  qed
  finally show "sum_list (map (\<lambda>w. sum_list (term_topic_count s w)) (tokens s)) =
         int (length (concat (texts s)))"
    using 1 by simp
qed

lemma mid_counts:
  assumes "mid d i s"
  shows "doc_topic_counts s =
           map (counter_row (K s)) ((doc_topic s)[d := drop_nth i (doc_topic s ! d)])"
    and "\<forall>w \<in> set (tokens s). term_topic_count s w =
           tally_row (K s) ((texts s)[d := drop_nth i (texts s ! d)])
             ((doc_topic s)[d := drop_nth i (doc_topic s ! d)]) w"
    and "V s = card (set (tokens s))"
    and "length (doc_topic_counts s ! d) = nat (K s)"
proof -
  have sh: "shape_ok s" and co: "counts_ok (without d i s)" and d: "d < length (texts s)"
    using assms by (simp_all add: mid_def)
  show a: "doc_topic_counts s =
           map (counter_row (K s)) ((doc_topic s)[d := drop_nth i (doc_topic s ! d)])"
    using co by (simp add: counts_ok_def without_def)
  show "\<forall>w \<in> set (tokens s). term_topic_count s w =
           tally_row (K s) ((texts s)[d := drop_nth i (texts s ! d)])
             ((doc_topic s)[d := drop_nth i (doc_topic s ! d)]) w"
    using co by (simp add: counts_ok_def without_def list_all_iff)
  show "V s = card (set (tokens s))"
    using sh by (simp add: shape_ok_def distinct_card)
  have "d < length (doc_topic s)" by (rule shape_okD(1)[OF sh d])
  then show "length (doc_topic_counts s ! d) = nat (K s)"
    by (subst a) simp
qed

subsection \<open>The sweeps as a list of events\<close>

lemma for_loop_append:
  "for_loop f (xs @ ys) s = (case for_loop f xs s of None \<Rightarrow> None | Some s' \<Rightarrow> for_loop f ys s')"
  by (induction xs arbitrary: s) (simp_all split: option.splits)

lemma for_loop_map: "for_loop f (map h xs) s = for_loop (\<lambda>x. f (h x)) xs s"
  by (induction xs arbitrary: s) (simp_all split: option.splits)

lemma for_loop_flatten:
  assumes "I s"
    and "\<And>x s. x \<in> set xs \<Longrightarrow> I s \<Longrightarrow> f x s = for_loop g (h x) s"
    and "\<And>x s s'. x \<in> set xs \<Longrightarrow> I s \<Longrightarrow> f x s = Some s' \<Longrightarrow> I s'"
  shows "for_loop f xs s = for_loop g (concat (map h xs)) s"
  using assms
proof (induction xs arbitrary: s)
  case Nil
  then show ?case by simp
next
  case (Cons x xs)
  have fx: "f x s = for_loop g (h x) s" using Cons.prems(1,2) by simp
  show ?case
  proof (cases "f x s")
    case None
    then show ?thesis using fx by (simp add: for_loop_append)
  next
    case (Some s1)
    have I1: "I s1" using Cons.prems(3)[of x s s1] Cons.prems(1) Some by simp
    have "for_loop f xs s1 = for_loop g (concat (map h xs)) s1"
    proof (rule Cons.IH[OF I1])
      show "\<And>y t. y \<in> set xs \<Longrightarrow> I t \<Longrightarrow> f y t = for_loop g (h y) t"
        using Cons.prems(2) by simp
      show "\<And>y t t'. y \<in> set xs \<Longrightarrow> I t \<Longrightarrow> f y t = Some t' \<Longrightarrow> I t'"
        using Cons.prems(3) by (meson list.set_intros(2))
    qed
    then show ?thesis using Some fx by (simp add: for_loop_append)
  qed
qed

lemma valid_visits: "e \<in> set (map (\<lambda>(d, i). Visit d i) (visits docs)) \<Longrightarrow> valid_event docs e"
  by (auto simp: visits_def valid_event_def)

lemma valid_schedule: "e \<in> set (schedule docs n) \<Longrightarrow> valid_event docs e"
  using valid_visits[of e docs]
  by (auto simp: schedule_def pass_events_def valid_event_def split: if_splits)

lemma run_event_reachable:
  fixes R :: "'g runtime"
  assumes "runtime_ok R" "reachable R docs k gs" "valid_event docs e"
  shows "\<exists>gs'. run_event R docs e gs = Some gs' \<and> reachable R docs k gs'"
proof -
  obtain g s where gs: "gs = (g, s)" by (cases gs)
  have wf: "wf s" and t: "texts s = docs"
    using reachable_wf[OF assms(1,2)] by (simp_all add: gs)
  show ?thesis
  proof (cases e)
    case Evaluate
    have "perplexity gs = Some (g, s\<lparr> perplexity_scores := perplexity_scores s @ [perplexity_spec s] \<rparr>)"
      using perplexity_Some[OF wf] by (simp add: gs)
    then show ?thesis
      using reachable.evaluated[OF assms(2)] by (simp add: run_event_def Evaluate)
  next
    case (Visit d i)
    then have d: "d < length docs" and i: "i < length (docs ! d)"
      using assms(3) by (simp_all add: valid_event_def)
    from resample_one_steps[OF assms(1) wf, of d i g] d i t
    obtain gs' where r: "resample_one R d (i, docs ! d ! i) gs = Some gs'"
      by (auto simp: gs)
    then show ?thesis
      using reachable.resampled[OF assms(2) d i r] by (simp add: run_event_def Visit)
  qed
qed

lemma run_events_reachable:
  fixes R :: "'g runtime"
  assumes "runtime_ok R" "reachable R docs k gs" "\<And>e. e \<in> set es \<Longrightarrow> valid_event docs e"
  shows "\<exists>gs'. for_loop (run_event R docs) es gs = Some gs' \<and> reachable R docs k gs'"
  by (rule for_loop_inv[where I = "reachable R docs k", OF assms(2)])
    (use run_event_reachable[OF assms(1)] assms(3) in blast)

lemma sweep_doc_flat:
  fixes R :: "'g runtime"
  assumes "runtime_ok R" "reachable R docs k gs" "d < length docs"
  shows "sweep_doc R (d, docs ! d) gs =
    for_loop (run_event R docs) (map (\<lambda>i. Visit d i) [0..<length (docs ! d)]) gs"
proof -
  have wf: "wf (snd gs)" and t: "texts (snd gs) = docs"
    using reachable_wf[OF assms(1,2)] by simp_all
  have "d < length (doc_topic (snd gs))"
    using shape_okD(1)[of "snd gs" d] wf t assms(3) by (simp add: wf_def)
  then have "sweep_doc R (d, docs ! d) gs =
      for_loop (resample_one R d) (enumerate 0 (docs ! d)) gs"
    by (simp add: sweep_doc_def nth_opt_def store_back_id split: option.splits)
  also have "\<dots> = for_loop (\<lambda>i. resample_one R d (i, docs ! d ! i)) [0..<length (docs ! d)] gs"
    by (simp add: enumerate0_map for_loop_map)
  also have "\<dots> = for_loop (run_event R docs) (map (\<lambda>i. Visit d i) [0..<length (docs ! d)]) gs"
    by (simp add: for_loop_map run_event_def)
  finally show ?thesis .
qed

lemma visits_events:
  "map (\<lambda>(d, i). Visit d i) (visits docs) =
     concat (map (\<lambda>d. map (\<lambda>i. Visit d i) [0..<length (docs ! d)]) [0..<length docs])"
  by (simp add: visits_def map_concat o_def)

lemma sweep_flat:
  fixes R :: "'g runtime"
  assumes "runtime_ok R" "reachable R docs k gs"
  shows "sweep R gs = for_loop (run_event R docs) (map (\<lambda>(d, i). Visit d i) (visits docs)) gs"
proof -
  have t: "texts (snd gs) = docs" using reachable_wf[OF assms] by simp
  have "sweep R gs = for_loop (\<lambda>d. sweep_doc R (d, docs ! d)) [0..<length docs] gs"
    by (simp add: sweep_def t enumerate0_map for_loop_map)
  also have "\<dots> = for_loop (run_event R docs)
      (concat (map (\<lambda>d. map (\<lambda>i. Visit d i) [0..<length (docs ! d)]) [0..<length docs])) gs"
  proof (rule for_loop_flatten[where I = "reachable R docs k", OF assms(2)])
    fix d and gs1 :: "'g \<times> gibbs"
    assume "d \<in> set [0..<length docs]" and "reachable R docs k gs1"
    then show "sweep_doc R (d, docs ! d) gs1 =
        for_loop (run_event R docs) (map (\<lambda>i. Visit d i) [0..<length (docs ! d)]) gs1"
      using sweep_doc_flat[OF assms(1)] by simp
  next
    fix d and gs1 gs2 :: "'g \<times> gibbs"
    assume d: "d \<in> set [0..<length docs]" and re: "reachable R docs k gs1"
      and sd: "sweep_doc R (d, docs ! d) gs1 = Some gs2"
    have "\<exists>gs'. for_loop (run_event R docs) (map (\<lambda>i. Visit d i) [0..<length (docs ! d)]) gs1
        = Some gs' \<and> reachable R docs k gs'"
      by (rule run_events_reachable[OF assms(1) re]) (use d in \<open>auto simp: valid_event_def\<close>)
    then obtain gs' where a: "for_loop (run_event R docs)
        (map (\<lambda>i. Visit d i) [0..<length (docs ! d)]) gs1 = Some gs'" "reachable R docs k gs'"
      by blast
    have "gs2 = gs'" using sweep_doc_flat[OF assms(1) re, of d] d sd a(1) by simp
    then show "reachable R docs k gs2" using a(2) by simp
  qed
  finally show ?thesis by (simp add: visits_events)
qed

lemma gibbs_step_flat:
  fixes R :: "'g runtime"
  assumes "runtime_ok R" "reachable R docs k gs"
  shows "gibbs_step R step gs = for_loop (run_event R docs) (pass_events docs step) gs"
proof (cases "step mod 25 = 0")
  case True
  from run_event_reachable[OF assms, of Evaluate]
  obtain gs1 where p: "perplexity gs = Some gs1" and re: "reachable R docs k gs1"
    by (auto simp: run_event_def valid_event_def)
  show ?thesis
    using True p sweep_flat[OF assms(1) re]
    by (simp add: gibbs_step_def pass_events_def run_event_def)
next
  case False
  then show ?thesis
    using sweep_flat[OF assms] by (simp add: gibbs_step_def pass_events_def)
qed

lemma iterate_flat:
  fixes R :: "'g runtime"
  assumes "runtime_ok R" "reachable R docs k gs"
  shows "iterate R n gs = for_loop (run_event R docs) (schedule docs (nat n)) gs"
  unfolding iterate_def schedule_def
proof (rule for_loop_flatten[where I = "reachable R docs k", OF assms(2)])
  fix step and gs1 :: "'g \<times> gibbs"
  assume "step \<in> set [0..<nat n]" and "reachable R docs k gs1"
  then show "gibbs_step R step gs1 = for_loop (run_event R docs) (pass_events docs step) gs1"
    using gibbs_step_flat[OF assms(1)] by simp
next
  fix step and gs1 gs2 :: "'g \<times> gibbs"
  assume st: "step \<in> set [0..<nat n]" and re: "reachable R docs k gs1"
    and gs2: "gibbs_step R step gs1 = Some gs2"
  have "\<exists>gs'. for_loop (run_event R docs) (pass_events docs step) gs1 = Some gs' \<and>
      reachable R docs k gs'"
    by (rule run_events_reachable[OF assms(1) re])
      (use valid_visits[of _ docs] in \<open>auto simp: pass_events_def valid_event_def split: if_splits\<close>)
  then obtain gs' where a: "for_loop (run_event R docs) (pass_events docs step) gs1 = Some gs'"
    "reachable R docs k gs'" by blast
  have "gs2 = gs'" using gibbs_step_flat[OF assms(1) re, of step] gs2 a(1) by simp
  then show "reachable R docs k gs2" using a(2) by simp
qed







lemma run_event_scores:
  fixes R :: "'g runtime"
  assumes "runtime_ok R" "reachable R docs k (g, s)" "valid_event docs e"
  shows "\<exists>g1 s1. run_event R docs e (g, s) = Some (g1, s1) \<and> reachable R docs k (g1, s1) \<and>
    perplexity_scores s1 = perplexity_scores s @
      (case e of Evaluate \<Rightarrow> [perplexity_spec s] | Visit d i \<Rightarrow> [])"
proof -
  have wf: "wf s" and t: "texts s = docs"
    using reachable_wf[OF assms(1,2)] by simp_all
  from run_event_reachable[OF assms]
  obtain g1 s1 where r: "run_event R docs e (g, s) = Some (g1, s1)"
    and re: "reachable R docs k (g1, s1)" by auto
  have "perplexity_scores s1 = perplexity_scores s @
      (case e of Evaluate \<Rightarrow> [perplexity_spec s] | Visit d i \<Rightarrow> [])"
  proof (cases e)
    case Evaluate
    then show ?thesis using r perplexity_Some[OF wf, of g] by (auto simp: run_event_def)
  next
    case (Visit d i)
    then have d: "d < length docs" and i: "i < length (docs ! d)"
      using assms(3) by (simp_all add: valid_event_def)
    from resample_one_wf[OF assms(1) wf, of d i g] d i t r
    show ?thesis by (auto simp: run_event_def Visit)
  qed
  with r re show ?thesis by blast
qed

lemma run_events_scores:
  fixes R :: "'g runtime"
  assumes "runtime_ok R" "reachable R docs k (g, s)" "\<And>e. e \<in> set es \<Longrightarrow> valid_event docs e"
  shows "\<exists>g' s' new. for_loop (run_event R docs) es (g, s) = Some (g', s') \<and>
    perplexity_scores s' = perplexity_scores s @ new \<and> length new = count_list es Evaluate"
  using assms(2,3)
proof (induction es arbitrary: g s)
  case Nil
  then show ?case by simp
next
  case (Cons e es)
  from run_event_scores[OF assms(1) Cons.prems(1), of e] Cons.prems(2)
  obtain g1 s1 where r: "run_event R docs e (g, s) = Some (g1, s1)"
    and re: "reachable R docs k (g1, s1)"
    and sc: "perplexity_scores s1 = perplexity_scores s @
      (case e of Evaluate \<Rightarrow> [perplexity_spec s] | Visit d i \<Rightarrow> [])"
    by auto
  from Cons.IH[OF re] Cons.prems(2)
  obtain g' s' new where l: "for_loop (run_event R docs) es (g1, s1) = Some (g', s')"
    and sc': "perplexity_scores s' = perplexity_scores s1 @ new"
    and len: "length new = count_list es Evaluate"
    by auto
  let ?new = "(case e of Evaluate \<Rightarrow> [perplexity_spec s] | Visit d i \<Rightarrow> []) @ new"
  have "for_loop (run_event R docs) (e # es) (g, s) = Some (g', s')" using r l by simp
  moreover have "perplexity_scores s' = perplexity_scores s @ ?new" using sc sc' by simp
  moreover have "length ?new = count_list (e # es) Evaluate"
    using len by (cases e) simp_all
  ultimately show ?case by blast
qed

subsection \<open>Listing the tokens in another order\<close>

lemma for_loop_commute:
  assumes "P s"
    and "\<And>x s. x \<in> set xs \<Longrightarrow> P s \<Longrightarrow> f2 x (h s) = map_option h (f1 x s)"
    and "\<And>x s s'. x \<in> set xs \<Longrightarrow> P s \<Longrightarrow> f1 x s = Some s' \<Longrightarrow> P s'"
  shows "for_loop f2 xs (h s) = map_option h (for_loop f1 xs s)"
  using assms
proof (induction xs arbitrary: s)
  case Nil
  then show ?case by simp
next
  case (Cons x xs)
  have fx: "f2 x (h s) = map_option h (f1 x s)" using Cons.prems(1,2) by simp
  show ?case
  proof (cases "f1 x s")
    case None
    then show ?thesis using fx by simp
  next
    case (Some s1)
    have P1: "P s1" using Cons.prems(3)[of x s s1] Cons.prems(1) Some by simp
    have "for_loop f2 xs (h s1) = map_option h (for_loop f1 xs s1)"
    proof (rule Cons.IH[OF P1])
      show "\<And>y t. y \<in> set xs \<Longrightarrow> P t \<Longrightarrow> f2 y (h t) = map_option h (f1 y t)"
        using Cons.prems(2) by simp
      show "\<And>y t t'. y \<in> set xs \<Longrightarrow> P t \<Longrightarrow> f1 y t = Some t' \<Longrightarrow> P t'"
        using Cons.prems(3) by (meson list.set_intros(2))
    qed
    then show ?thesis using Some fx by simp
  qed
qed

lemma remove_retoken:
  assumes "set ts = set (tokens s)"
  shows "remove d i w (s\<lparr> tokens := ts \<rparr>) = map_option (\<lambda>s. s\<lparr> tokens := ts \<rparr>) (remove d i w s)"
  using assms
  by (simp add: remove_def nth_opt_def loc_add_def term_loc_add_def)

lemma add_back_retoken:
  assumes "set ts = set (tokens s)"
  shows "add_back d i w new (s\<lparr> tokens := ts \<rparr>) =
    map_option (\<lambda>s. s\<lparr> tokens := ts \<rparr>) (add_back d i w new s)"
  using assms
  by (simp add: add_back_def nth_opt_def loc_add_def term_loc_add_def)

lemma weights_retoken: "weights (s\<lparr> tokens := ts \<rparr>) d w = weights s d w"
  by (simp add: weights_def word_given_topic_def topic_given_doc_def)

lemma resample_one_tokens:
  assumes "resample_one R d iw (g, s) = Some (g', s')"
  shows "tokens s' = tokens s"
proof -
  obtain i w where iw: "iw = (i, w)" by (cases iw)
  show ?thesis
  proof (cases "remove d i w s")
    case None
    then show ?thesis using assms by (simp add: resample_one_def iw)
  next
    case (Some s1)
    obtain new g1 where dr: "multinomial1 R (normalize_weights (weights s1 d w)) g = (new, g1)"
      by (cases "multinomial1 R (normalize_weights (weights s1 d w)) g")
    have "add_back d i w new s1 = Some s'"
      using assms Some dr by (auto simp: resample_one_def iw bind_eq_Some_conv)
    then show ?thesis using remove_frame(3)[OF Some] add_back_frame(2) by simp
  qed
qed

lemma resample_one_retoken:
  fixes R1 R2 :: "'g runtime"
  assumes "multinomial1 R2 = multinomial1 R1" "set ts = set (tokens s)"
  shows "resample_one R2 d iw (retoken ts (g, s)) = map_option (retoken ts) (resample_one R1 d iw (g, s))"
proof -
  obtain i w where iw: "iw = (i, w)" by (cases iw)
  show ?thesis
  proof (cases "remove d i w s")
    case None
    then show ?thesis
      using assms(2) by (simp add: resample_one_def iw retoken_def remove_retoken)
  next
    case (Some s1)
    have t1: "set ts = set (tokens s1)" using remove_frame(3)[OF Some] assms(2) by simp
    obtain new g' where dr: "multinomial1 R1 (normalize_weights (weights s1 d w)) g = (new, g')"
      by (cases "multinomial1 R1 (normalize_weights (weights s1 d w)) g")
    show ?thesis
      using assms Some dr add_back_retoken[OF t1, of d i w new]
      by (cases "add_back d i w new s1")
         (simp_all add: resample_one_def iw retoken_def remove_retoken weights_retoken)
  qed
qed

lemma tt_retoken:
  assumes "distinct ts" "distinct (tokens s)" "set ts = set (tokens s)"
  shows "tt (s\<lparr> tokens := ts \<rparr>) w = tt s w"
proof -
  have "tt_sum (s\<lparr> tokens := ts \<rparr>) j = tt_sum s j" for j
    using assms
    by (simp add: tt_sum_def sum_list_distinct_conv_sum_set)
  then show ?thesis by (simp add: tt_def)
qed

lemma dt_retoken: "dt (s\<lparr> tokens := ts \<rparr>) = dt s"
  by (simp add: dt_def dt_row_def)

lemma prob_retoken:
  assumes "distinct ts" "distinct (tokens s)" "set ts = set (tokens s)"
  shows "prob (s\<lparr> tokens := ts \<rparr>) = prob s"
  unfolding prob_def tt_retoken[OF assms] dt_retoken using assms(3) by simp

lemma perplexity_retoken:
  assumes "distinct ts" "distinct (tokens s)" "set ts = set (tokens s)"
  shows "perplexity (retoken ts (g, s)) = map_option (retoken ts) (perplexity (g, s))"
  by (cases "apply_rows (prob s) (enumerate 0 (texts s))")
     (simp_all add: perplexity_def retoken_def prob_retoken[OF assms])

lemma perplexity_tokens:
  assumes "perplexity (g, s) = Some (g', s')"
  shows "tokens s' = tokens s"
  using assms by (auto simp: perplexity_def bind_eq_Some_conv)

lemma run_event_retoken:
  fixes R1 R2 :: "'g runtime"
  assumes "multinomial1 R2 = multinomial1 R1"
    "distinct ts" "distinct (tokens (snd gs))" "set ts = set (tokens (snd gs))"
  shows "run_event R2 docs e (retoken ts gs) = map_option (retoken ts) (run_event R1 docs e gs)"
proof -
  obtain g s where gs: "gs = (g, s)" by (cases gs)
  show ?thesis
  proof (cases e)
    case Evaluate
    then show ?thesis
      using perplexity_retoken[of ts s g] assms(2-4) by (simp add: run_event_def gs)
  next
    case (Visit d i)
    then show ?thesis
      using resample_one_retoken[OF assms(1), of ts s d _ g] assms(4)
      by (simp add: run_event_def gs)
  qed
qed

lemma run_event_tokens:
  assumes "run_event R docs e gs = Some gs'"
  shows "tokens (snd gs') = tokens (snd gs)"
proof -
  obtain g s where gs: "gs = (g, s)" by (cases gs)
  obtain g' s' where gs': "gs' = (g', s')" by (cases gs')
  show ?thesis
    using assms perplexity_tokens[of g s g' s'] resample_one_tokens[of R _ _ g s g' s']
    by (cases e) (simp_all add: run_event_def gs gs')
qed

lemma run_events_retoken:
  fixes R1 R2 :: "'g runtime"
  assumes "multinomial1 R2 = multinomial1 R1"
    "distinct ts" "distinct (tokens (snd gs))" "set ts = set (tokens (snd gs))"
  shows "for_loop (run_event R2 docs) es (retoken ts gs) =
    map_option (retoken ts) (for_loop (run_event R1 docs) es gs)"
proof (rule for_loop_commute[where P = "\<lambda>gs'. tokens (snd gs') = tokens (snd gs)"])
  show "tokens (snd gs) = tokens (snd gs)" by simp
next
  fix e and gs1 :: "'g \<times> gibbs"
  assume "tokens (snd gs1) = tokens (snd gs)"
  then show "run_event R2 docs e (retoken ts gs1) = map_option (retoken ts) (run_event R1 docs e gs1)"
    using run_event_retoken[OF assms(1,2), of gs1] assms(3,4) by simp
next
  fix e and gs1 gs2 :: "'g \<times> gibbs"
  assume "tokens (snd gs1) = tokens (snd gs)" "run_event R1 docs e gs1 = Some gs2"
  then show "tokens (snd gs2) = tokens (snd gs)"
    using run_event_tokens[of R1 docs e gs1 gs2] by simp
qed

lemma draws_and_trace_retoken: "draws_and_trace (retoken ts gs) = draws_and_trace gs"
  by (cases gs) (simp add: draws_and_trace_def retoken_def)

lemma draw_docs_cong:
  fixes R1 R2 :: "'g runtime"
  assumes "randint R2 = randint R1" "0 < k" "k \<le> 2 ^ 63"
  shows "draw_docs R2 k docs g = draw_docs R1 k docs g"
proof -
  have "np_randint R2 k n g = np_randint R1 k n g" for n g
    using assms by (simp add: np_randint_def)
  then show ?thesis
    by (induction docs arbitrary: g) (simp_all split: option.splits)
qed

lemma term_loc_add_cong:
  assumes "set toks2 = set toks1"
  shows "term_loc_add toks2 = term_loc_add toks1"
  using assms by (intro ext) (simp add: term_loc_add_def)

lemma Gibbs_init_retoken:
  fixes R1 R2 :: "'g runtime"
  assumes "runtime_ok R1" "runtime_ok R2" "randint R2 = randint R1"
  shows "Gibbs_init R2 g docs k =
    map_option (retoken (set_list R2 (concat docs))) (Gibbs_init R1 g docs k)"
proof -
  let ?t1 = "set_list R1 (concat docs)" and ?t2 = "set_list R2 (concat docs)"
  have d: "distinct ?t1" "distinct ?t2" and st: "set ?t2 = set ?t1"
    and s1: "set ?t1 = set (concat docs)"
    using assms(1,2) by (simp_all add: runtime_ok_def)
  have len: "length ?t2 = length ?t1"
    using d st by (metis distinct_card)
  have td: "tally_doc ?t2 = tally_doc ?t1"
    by (simp add: tally_doc_def term_loc_add_cong[OF st])
  consider (low) "k \<le> 0" | (empty) "length ?t1 = 0"
    | (big) "2 ^ 63 \<le> 8 * int (length ?t1) * k"
    | (ok) "0 < k" "length ?t1 \<noteq> 0" "8 * int (length ?t1) * k < 2 ^ 63"
    by linarith
  then show ?thesis
  proof cases
    case low
    then show ?thesis by (simp add: Gibbs_init_None_K)
  next
    case empty
    then show ?thesis using len by (simp add: Gibbs_init_None_V)
  next
    case big
    then show ?thesis using len by (simp add: Gibbs_init_None_big)
  next
    case ok
    have "1 \<le> int (length ?t1)" using ok(2) by (cases ?t1) simp_all
    then have "k \<le> int (length ?t1) * k" using ok(1) by (simp add: mult_le_cancel_right1)
    then have kb: "k \<le> 2 ^ 63" using ok(1,3) by linarith
    show ?thesis
      by (auto simp: Gibbs_init_def Let_def retoken_def draw_docs_cong[OF assms(3) ok(1) kb]
          td len split: Option.bind_splits)
  qed
qed

subsection \<open>Sorting the vocabulary by count\<close>

lemma nth_image_all: "(\<lambda>i. xs ! i) ` {..<length xs} = set xs"
  by (auto simp: in_set_conv_nth)

lemma argsort_length:
  assumes "argsort_ok R"
  shows "length (argsort R keys) = length keys"
proof -
  have "distinct (argsort R keys)" "set (argsort R keys) = {..<length keys}"
    using assms by (simp_all add: argsort_ok_def)
  then show ?thesis by (metis card_lessThan distinct_card)
qed

lemma sort_descending_length:
  assumes "argsort_ok R"
  shows "length (sort_descending R s topic) = length (tokens s)"
  by (simp add: sort_descending_def Let_def argsort_length[OF assms])

lemma sort_descending_set:
  assumes "argsort_ok R"
  shows "set (sort_descending R s topic) = set (tokens s)"
proof -
  let ?rows = "rev (tokens s)"
  let ?keys = "map (\<lambda>w. term_topic_count s w ! topic) ?rows"
  have "set (argsort R ?keys) = {..<length ?rows}"
    using assms by (simp add: argsort_ok_def)
  then have "set (map (\<lambda>i. ?rows ! i) (argsort R ?keys)) = (\<lambda>i. ?rows ! i) ` {..<length ?rows}"
    by simp
  also have "\<dots> = set ?rows" by (rule nth_image_all)
  finally show ?thesis by (simp add: sort_descending_def Let_def)
qed

lemma sort_descending_distinct:
  assumes "argsort_ok R" "distinct (tokens s)"
  shows "distinct (sort_descending R s topic)"
proof -
  let ?rows = "rev (tokens s)"
  let ?keys = "map (\<lambda>w. term_topic_count s w ! topic) ?rows"
  have d: "distinct (argsort R ?keys)" and se: "set (argsort R ?keys) = {..<length ?rows}"
    using assms(1) by (simp_all add: argsort_ok_def)
  have "inj_on (nth ?rows) (set (argsort R ?keys))"
    by (rule inj_on_nth) (simp_all add: assms(2) se)
  then have "distinct (map (\<lambda>i. ?rows ! i) (argsort R ?keys))"
    using d by (simp add: distinct_map)
  then show ?thesis by (simp add: sort_descending_def Let_def)
qed

lemma sort_descending_sorted:
  assumes "argsort_ok R"
  shows "sorted_wrt (\<lambda>a b. term_topic_count s b ! topic \<le> term_topic_count s a ! topic)
           (sort_descending R s topic)"
proof -
  let ?f = "\<lambda>w. term_topic_count s w ! topic"
  let ?rows = "rev (tokens s)"
  let ?keys = "map ?f ?rows"
  let ?idx = "argsort R ?keys"
  have se: "set ?idx = {..<length ?rows}" and so: "sorted (map (\<lambda>i. ?keys ! i) ?idx)"
    using assms by (simp_all add: argsort_ok_def)
  have "map (\<lambda>i. ?keys ! i) ?idx = map ?f (map (\<lambda>i. ?rows ! i) ?idx)"
    using se by (auto simp del: rev_rev_ident)
  with so have "sorted (map ?f (map (\<lambda>i. ?rows ! i) ?idx))" by simp
  then have "sorted_wrt (\<lambda>a b. ?f a \<le> ?f b) (map (\<lambda>i. ?rows ! i) ?idx)"
    by (simp only: sorted_map)
  then have "sorted_wrt (\<lambda>a b. ?f b \<le> ?f a) (rev (map (\<lambda>i. ?rows ! i) ?idx))"
    by (simp only: sorted_wrt_rev)
  then show ?thesis by (simp add: sort_descending_def Let_def)
qed

lemma top_n_length:
  "argsort_ok R \<Longrightarrow> length (top_n R s topic n) = min n (length (tokens s))"
  by (simp add: top_n_def sort_descending_length min.commute)

lemma top_n_subset: "argsort_ok R \<Longrightarrow> set (top_n R s topic n) \<subseteq> set (tokens s)"
  unfolding top_n_def
  using set_take_subset[of n "sort_descending R s topic"] sort_descending_set[of R s topic]
  by simp

lemma top_n_distinct:
  "argsort_ok R \<Longrightarrow> distinct (tokens s) \<Longrightarrow> distinct (top_n R s topic n)"
  by (simp add: top_n_def sort_descending_distinct)

lemma top_n_sorted:
  "argsort_ok R \<Longrightarrow>
   sorted_wrt (\<lambda>a b. term_topic_count s b ! topic \<le> term_topic_count s a ! topic)
     (top_n R s topic n)"
  unfolding top_n_def by (rule sorted_wrt_take[OF sort_descending_sorted])

lemma top_n_highest:
  fixes s :: gibbs
  assumes "argsort_ok R"
    and "w \<in> set (top_n R s topic n)" "w' \<in> set (tokens s)" "w' \<notin> set (top_n R s topic n)"
  shows "term_topic_count s w' ! topic \<le> term_topic_count s w ! topic"
proof -
  let ?f = "\<lambda>w. term_topic_count s w ! topic"
  let ?xs = "sort_descending R s topic"
  have "sorted_wrt (\<lambda>a b. ?f b \<le> ?f a) (take n ?xs @ drop n ?xs)"
    using sort_descending_sorted[OF assms(1), of s topic] by simp
  then have later: "\<forall>a \<in> set (take n ?xs). \<forall>b \<in> set (drop n ?xs). ?f b \<le> ?f a"
    unfolding sorted_wrt_append by blast
  have "set ?xs = set (take n ?xs) \<union> set (drop n ?xs)"
    by (metis append_take_drop_id set_append)
  moreover have "w' \<in> set ?xs" using assms(3) sort_descending_set[OF assms(1)] by simp
  ultimately have "w' \<in> set (drop n ?xs)" using assms(4) by (auto simp: top_n_def)
  then show ?thesis using later assms(2) by (auto simp: top_n_def)
qed

lemma top_n_words_prints:
  fixes R :: "'g runtime"
  assumes "runtime_ok R" and "argsort_ok R" and "reachable R docs k (g, s)"
  shows "fst (top_n_words R s n) = map (\<lambda>topic. (topic, top_n R s topic n)) [0..<nat k] \<and>
    snd (snd (top_n_words R s n)) = s \<and>
    (\<forall>topic < nat k.
       length (top_n R s topic n) = min n (V s) \<and>
       distinct (top_n R s topic n) \<and>
       set (top_n R s topic n) \<subseteq> set (tokens s) \<and>
       sorted_wrt (\<lambda>a b. term_topic_count s b ! topic \<le> term_topic_count s a ! topic)
         (top_n R s topic n) \<and>
       (\<forall>w \<in> set (top_n R s topic n). \<forall>w' \<in> set (tokens s) - set (top_n R s topic n).
          term_topic_count s w' ! topic \<le> term_topic_count s w ! topic))"
proof -
  have wf: "wf s" and kk: "K s = k" using reachable_wf[OF assms(1,3)] by simp_all
  have v: "V s = length (tokens s)" and dist: "distinct (tokens s)"
    using wf by (simp_all add: wf_def shape_ok_def)
  show ?thesis
    using top_n_highest[OF assms(2), of _ s _ n]
    by (simp add: top_n_words_def kk top_n_length[OF assms(2)] v
        top_n_distinct[OF assms(2) dist] top_n_subset[OF assms(2)] top_n_sorted[OF assms(2)])
qed

lemma demo_argsort_ok: "argsort_ok demo_runtime"
proof -
  have "distinct (sort_key (\<lambda>i. keys ! i) [0..<length keys]) \<and>
        set (sort_key (\<lambda>i. keys ! i) [0..<length keys]) = {..<length keys} \<and>
        sorted (map (\<lambda>i. keys ! i) (sort_key (\<lambda>i. keys ! i) [0..<length keys]))"
    for keys :: "int list"
    by (auto simp: sorted_sort_key)
  then show ?thesis by (simp add: argsort_ok_def demo_runtime_def)
qed

subsection \<open>Runs of events\<close>







section \<open>The claims\<close>

subsection \<open>The conditional weights\<close>

text \<open>
  C1. For every word occurrence (document \<open>d\<close>, position \<open>i\<close>, word \<open>w\<close>) of a reachable
  state the remove step returns a state \<open>s1\<close> for which the weight that the resample
  computes for each topic \<open>j\<close> of \<open>range(K)\<close> is
  \<open>(term_topic_count[w, j] + beta) / (sum over the vocabulary of term_topic_count[w', j] + V * beta)\<close>
  times
  \<open>(doc_topic_counts[d, j] + alpha) / (sum over the topics of doc_topic_counts[d, j'] + K * alpha)\<close>,
  where \<open>V\<close> is the number of vocabulary terms and the counts of \<open>s1\<close> are the tallies of
  the topic assignment with the occurrence \<open>(d, i)\<close> left out. These are the weights that
  the resample normalises and passes to the draw.
\<close>

theorem conditional_weight_formula:
  fixes R :: "'g runtime"
  assumes "runtime_ok R" and "reachable R docs k (g, s)"
  shows "\<forall>d < length docs. \<forall>i < length (docs ! d).
       \<exists>s1. remove d i (docs ! d ! i) s = Some s1 \<and>
         weights s1 d (docs ! d ! i) =
           map (\<lambda>j.
                 ((real_of_int (term_topic_count s1 (docs ! d ! i) ! j) + beta s1) /
                  (real_of_int (\<Sum>w' \<in> set (tokens s1). term_topic_count s1 w' ! j) +
                     real (V s1) * beta s1)) *
                 ((real_of_int (doc_topic_counts s1 ! d ! j) + alpha s1) /
                  (real_of_int (\<Sum>j' < nat k. doc_topic_counts s1 ! d ! j') +
                     real_of_int k * alpha s1)))
               [0..<nat k] \<and>
         V s1 = card (set (tokens s1)) \<and>
         doc_topic_counts s1 =
           map (counter_row k) ((doc_topic s)[d := drop_nth i (doc_topic s ! d)]) \<and>
         (\<forall>w' \<in> set (tokens s1). term_topic_count s1 w' =
           tally_row k (docs[d := drop_nth i (docs ! d)])
             ((doc_topic s)[d := drop_nth i (doc_topic s ! d)]) w') \<and>
         resample_one R d (i, docs ! d ! i) (g, s) =
           (case multinomial1 R (normalize_weights (weights s1 d (docs ! d ! i))) g of
              (new_topic, g') \<Rightarrow>
                map_option (Pair g') (add_back d i (docs ! d ! i) new_topic s1))"
proof (intro allI impI)
  fix d i assume d: "d < length docs" and i: "i < length (docs ! d)"
  have wf: "wf s" and t: "texts s = docs" and kk: "K s = k"
    using reachable_wf[OF assms] by simp_all
  from resample_one_steps[OF assms(1) wf, of d i g] d i t
  obtain s1 where st: "remove d i (docs ! d ! i) s = Some s1" "mid d i s1" by auto
  note F = remove_frame[OF st(1)]
  have k1: "K s1 = k" using F kk by simp
  note M = mid_counts[OF st(2), unfolded k1 F(1,2) t]
  have c: "col_sum (doc_topic_counts s1) j =
      (\<Sum>w \<in> set (tokens s1). term_topic_count s1 w ! j)" if "j < nat k" for j
    using mid_col_sums_set[OF st(2), of j] that by (simp add: k1)
  have r: "sum_list (doc_topic_counts s1 ! d) = (\<Sum>j' < nat k. doc_topic_counts s1 ! d ! j')"
    using sum_list_as_nth[OF M(4)] by (simp add: sum_list_upt)
  have w: "weights s1 d (docs ! d ! i) =
           map (\<lambda>j.
                 ((real_of_int (term_topic_count s1 (docs ! d ! i) ! j) + beta s1) /
                  (real_of_int (\<Sum>w' \<in> set (tokens s1). term_topic_count s1 w' ! j) +
                     real (V s1) * beta s1)) *
                 ((real_of_int (doc_topic_counts s1 ! d ! j) + alpha s1) /
                  (real_of_int (\<Sum>j' < nat k. doc_topic_counts s1 ! d ! j') +
                     real_of_int k * alpha s1)))
               [0..<nat k]"
  proof (rule nth_equalityI)
    show "length (weights s1 d (docs ! d ! i)) = length (map (\<lambda>j.
                 ((real_of_int (term_topic_count s1 (docs ! d ! i) ! j) + beta s1) /
                  (real_of_int (\<Sum>w' \<in> set (tokens s1). term_topic_count s1 w' ! j) +
                     real (V s1) * beta s1)) *
                 ((real_of_int (doc_topic_counts s1 ! d ! j) + alpha s1) /
                  (real_of_int (\<Sum>j' < nat k. doc_topic_counts s1 ! d ! j') +
                     real_of_int k * alpha s1)))
               [0..<nat k])"
      by (simp add: weights_length k1)
  next
    fix j assume "j < length (weights s1 d (docs ! d ! i))"
    then have j: "j < nat k" by (simp add: weights_length k1)
    then have j1: "j < nat (K s1)" by (simp add: k1)
    show "weights s1 d (docs ! d ! i) ! j = map (\<lambda>j.
                 ((real_of_int (term_topic_count s1 (docs ! d ! i) ! j) + beta s1) /
                  (real_of_int (\<Sum>w' \<in> set (tokens s1). term_topic_count s1 w' ! j) +
                     real (V s1) * beta s1)) *
                 ((real_of_int (doc_topic_counts s1 ! d ! j) + alpha s1) /
                  (real_of_int (\<Sum>j' < nat k. doc_topic_counts s1 ! d ! j') +
                     real_of_int k * alpha s1)))
               [0..<nat k] ! j"
      using j by (simp only: weights_nth[OF j1] c[OF j] r k1 nth_map_upt add_0 length_upt
          diff_zero nth_upt)
  qed
  have rs: "resample_one R d (i, docs ! d ! i) (g, s) =
           (case multinomial1 R (normalize_weights (weights s1 d (docs ! d ! i))) g of
              (new_topic, g') \<Rightarrow>
                map_option (Pair g') (add_back d i (docs ! d ! i) new_topic s1))"
    by (simp add: resample_one_def st(1) map_conv_bind_option o_def split: prod.splits)
  from st(1) w M(3,1,2) rs
  show "\<exists>s1. remove d i (docs ! d ! i) s = Some s1 \<and>
         weights s1 d (docs ! d ! i) =
           map (\<lambda>j.
                 ((real_of_int (term_topic_count s1 (docs ! d ! i) ! j) + beta s1) /
                  (real_of_int (\<Sum>w' \<in> set (tokens s1). term_topic_count s1 w' ! j) +
                     real (V s1) * beta s1)) *
                 ((real_of_int (doc_topic_counts s1 ! d ! j) + alpha s1) /
                  (real_of_int (\<Sum>j' < nat k. doc_topic_counts s1 ! d ! j') +
                     real_of_int k * alpha s1)))
               [0..<nat k] \<and>
         V s1 = card (set (tokens s1)) \<and>
         doc_topic_counts s1 =
           map (counter_row k) ((doc_topic s)[d := drop_nth i (doc_topic s ! d)]) \<and>
         (\<forall>w' \<in> set (tokens s1). term_topic_count s1 w' =
           tally_row k (docs[d := drop_nth i (docs ! d)])
             ((doc_topic s)[d := drop_nth i (doc_topic s ! d)]) w') \<and>
         resample_one R d (i, docs ! d ! i) (g, s) =
           (case multinomial1 R (normalize_weights (weights s1 d (docs ! d ! i))) g of
              (new_topic, g') \<Rightarrow>
                map_option (Pair g') (add_back d i (docs ! d ! i) new_topic s1))"
    by blast
qed

theorem conditional_weight_formula_witness:
  "\<exists>g s s1. Gibbs_init demo_runtime 0 scenario_A 2 = Some (g, s) \<and>
      remove 0 0 ''a'' s = Some s1 \<and>
      weights s1 0 ''a'' =
        map (\<lambda>j.
              ((real_of_int (term_topic_count s1 ''a'' ! j) + beta s1) /
               (real_of_int (\<Sum>w' \<in> {''a'', ''b'', ''c''}. term_topic_count s1 w' ! j) +
                  real (V s1) * beta s1)) *
              ((real_of_int (doc_topic_counts s1 ! 0 ! j) + alpha s1) /
               (real_of_int (\<Sum>j' < 2. doc_topic_counts s1 ! 0 ! j') + 2 * alpha s1)))
            [0..<2] \<and>
      doc_topic_counts s1 = [[0, 1], [1, 1]]"
proof -
  obtain g s where init: "Gibbs_init demo_runtime 0 scenario_A 2 = Some (g, s)"
    and toks: "tokens s = [''a'', ''b'', ''c'']" and zs: "doc_topic s = [[0, 1], [0, 1]]"
    using scenario_A_init by (fastforce simp: observe_def)
  have re: "reachable demo_runtime scenario_A 2 (g, s)"
    by (rule reachable.constructed[OF init])
  have w: "scenario_A ! 0 ! 0 = ''a''"
    and d0: "0 < length scenario_A" and i0: "0 < length (scenario_A ! 0)"
    by (simp_all add: scenario_A_def)
  from conditional_weight_formula[OF demo_runtime_ok re, rule_format, OF d0 i0]
  obtain s1 where s1: "remove 0 0 ''a'' s = Some s1"
    and ws: "weights s1 0 ''a'' =
           map (\<lambda>j.
                 ((real_of_int (term_topic_count s1 ''a'' ! j) + beta s1) /
                  (real_of_int (\<Sum>w' \<in> set (tokens s1). term_topic_count s1 w' ! j) +
                     real (V s1) * beta s1)) *
                 ((real_of_int (doc_topic_counts s1 ! 0 ! j) + alpha s1) /
                  (real_of_int (\<Sum>j' < nat 2. doc_topic_counts s1 ! 0 ! j') +
                     real_of_int 2 * alpha s1)))
               [0..<nat 2]"
    and dtc: "doc_topic_counts s1 =
           map (counter_row 2) ((doc_topic s)[0 := drop_nth 0 (doc_topic s ! 0)])"
    unfolding w by blast
  have t1: "tokens s1 = [''a'', ''b'', ''c'']" using remove_frame(3)[OF s1] toks by simp
  have "doc_topic_counts s1 = [[0, 1], [1, 1]]"
    unfolding dtc zs by code_simp
  with init s1 ws show ?thesis by (auto simp: t1)
qed

subsection \<open>The row sums of the document table\<close>

text \<open>
  C2. At every state reached from the constructor by completed resamples and perplexity
  evaluations, each row of \<open>doc_topic_counts\<close> sums to the length of its document. For
  every word occurrence the remove half returns a state in which the row of that document
  sums to one less and every other row sum is the same, and the add-back half, run with the
  topic that was drawn, completes the resample and restores the row sums.
\<close>

theorem row_sum_invariant:
  fixes R :: "'g runtime"
  assumes "runtime_ok R" and "reachable R docs k (g, s)"
  shows "map sum_list (doc_topic_counts s) = map (\<lambda>doc. int (length doc)) docs \<and>
    (\<forall>d < length docs. \<forall>i < length (docs ! d).
       \<exists>s1 new g' s2.
         remove d i (docs ! d ! i) s = Some s1 \<and>
         map sum_list (doc_topic_counts s1) =
           (map sum_list (doc_topic_counts s))[d := sum_list (doc_topic_counts s ! d) - 1] \<and>
         multinomial1 R (normalize_weights (weights s1 d (docs ! d ! i))) g = (new, g') \<and>
         add_back d i (docs ! d ! i) new s1 = Some s2 \<and>
         resample_one R d (i, docs ! d ! i) (g, s) = Some (g', s2) \<and>
         map sum_list (doc_topic_counts s2) = map (\<lambda>doc. int (length doc)) docs)"
proof -
  have wf: "wf s" and t: "texts s = docs" and kk: "K s = k"
    using reachable_wf[OF assms] by simp_all
  have rows: "map sum_list (doc_topic_counts s) = map (\<lambda>doc. int (length doc)) docs"
    using wf_row_sums[OF wf] by (simp add: t)
  have "\<exists>s1 new g' s2.
         remove d i (docs ! d ! i) s = Some s1 \<and>
         map sum_list (doc_topic_counts s1) =
           (map sum_list (doc_topic_counts s))[d := sum_list (doc_topic_counts s ! d) - 1] \<and>
         multinomial1 R (normalize_weights (weights s1 d (docs ! d ! i))) g = (new, g') \<and>
         add_back d i (docs ! d ! i) new s1 = Some s2 \<and>
         resample_one R d (i, docs ! d ! i) (g, s) = Some (g', s2) \<and>
         map sum_list (doc_topic_counts s2) = map (\<lambda>doc. int (length doc)) docs"
    if d: "d < length docs" and i: "i < length (docs ! d)" for d i
  proof -
    from resample_one_steps[OF assms(1) wf, of d i g] d i t
    obtain s1 new g' s2 where st: "remove d i (docs ! d ! i) s = Some s1" "mid d i s1"
      "multinomial1 R (normalize_weights (weights s1 d (docs ! d ! i))) g = (new, g')"
      "add_back d i (docs ! d ! i) new s1 = Some s2" "wf s2"
      "resample_one R d (i, docs ! d ! i) (g, s) = Some (g', s2)" "texts s2 = docs"
      by auto
    have t1: "texts s1 = docs" using remove_frame(1)[OF st(1)] t by simp
    have dd: "d < length (doc_topic_counts s)" using wf_rows(1)[OF wf] d t by simp
    have "sum_list (doc_topic_counts s ! d) = int (length (docs ! d))"
      using arg_cong[OF rows, of "\<lambda>xs. xs ! d"] d dd by simp
    then have r1: "map sum_list (doc_topic_counts s1) =
        (map sum_list (doc_topic_counts s))[d := sum_list (doc_topic_counts s ! d) - 1]"
      using mid_row_sums[OF st(2)] by (simp add: t1 rows)
    have r2: "map sum_list (doc_topic_counts s2) = map (\<lambda>doc. int (length doc)) docs"
      using wf_row_sums[OF st(5)] by (simp add: st(7))
    show ?thesis using st(1,3,4,6) r1 r2 by blast
  qed
  with rows show ?thesis by blast
qed

theorem row_sum_invariant_witness:
  "\<exists>gs. Gibbs_init demo_runtime 0 scenario_A 2 = Some gs \<and>
      map sum_list (doc_topic_counts (snd gs)) = [2, 2] \<and>
      (\<exists>s1. remove 0 0 ''a'' (snd gs) = Some s1 \<and>
         map sum_list (doc_topic_counts s1) = [1, 2])"
proof -
  obtain g s where init: "Gibbs_init demo_runtime 0 scenario_A 2 = Some (g, s)"
    using scenario_A_init by fastforce
  have re: "reachable demo_runtime scenario_A 2 (g, s)"
    by (rule reachable.constructed[OF init])
  note T = row_sum_invariant[OF demo_runtime_ok re]
  have rows: "map sum_list (doc_topic_counts s) = [2, 2]"
    using T by (simp add: scenario_A_def)
  have "0 < length scenario_A" "0 < length (scenario_A ! 0)" by (simp_all add: scenario_A_def)
  with T obtain s1 where "remove 0 0 (scenario_A ! 0 ! 0) s = Some s1"
    "map sum_list (doc_topic_counts s1) =
           (map sum_list (doc_topic_counts s))[0 := sum_list (doc_topic_counts s ! 0) - 1]"
    by blast
  then have "remove 0 0 ''a'' s = Some s1 \<and> map sum_list (doc_topic_counts s1) = [1, 2]"
    using rows by (auto simp: scenario_A_def)
  with init rows show ?thesis by auto
qed

subsection \<open>The corpus totals\<close>

text \<open>
  C3. At every reachable state (after the constructor, and after every completed resample
  or perplexity evaluation) the sum of all entries of \<open>doc_topic_counts\<close> and the sum of
  all entries of \<open>term_topic_count\<close> both equal the number of word occurrences of the
  corpus.
\<close>

theorem corpus_total_invariant:
  fixes R :: "'g runtime"
  assumes "runtime_ok R" and "reachable R docs k (g, s)"
  shows "sum_list (map sum_list (doc_topic_counts s)) = int (length (concat docs)) \<and>
         sum_list (map (\<lambda>w. sum_list (term_topic_count s w)) (tokens s)) =
           int (length (concat docs))"
proof -
  have wf: "wf s" and t: "texts s = docs"
    using reachable_wf[OF assms] by simp_all
  show ?thesis using wf_totals[OF wf] by (simp add: t)
qed

theorem corpus_total_invariant_witness:
  "\<exists>g s g' s'. Gibbs_init demo_runtime 0 scenario_A 2 = Some (g, s) \<and>
      sum_list (map sum_list (doc_topic_counts s)) = 4 \<and>
      sum_list (map (\<lambda>w. sum_list (term_topic_count s w)) [''a'', ''b'', ''c'']) = 4 \<and>
      resample_one demo_runtime 0 (0, ''a'') (g, s) = Some (g', s') \<and>
      sum_list (map sum_list (doc_topic_counts s')) = 4 \<and>
      sum_list (map (\<lambda>w. sum_list (term_topic_count s' w)) (tokens s')) = 4"
proof -
  obtain g s where init: "Gibbs_init demo_runtime 0 scenario_A 2 = Some (g, s)"
    and toks: "tokens s = [''a'', ''b'', ''c'']"
    using scenario_A_init by (fastforce simp: observe_def)
  have re: "reachable demo_runtime scenario_A 2 (g, s)"
    by (rule reachable.constructed[OF init])
  have w: "scenario_A ! 0 ! 0 = ''a''"
    and d0: "0 < length scenario_A" and i0: "0 < length (scenario_A ! 0)"
    and n: "int (length (concat scenario_A)) = 4"
    by (simp_all add: scenario_A_def)
  have wf: "wf s" and t: "texts s = scenario_A"
    using reachable_wf[OF demo_runtime_ok re] by simp_all
  from resample_one_steps[OF demo_runtime_ok wf, of 0 0 g] d0 i0
  obtain g' s' where rs: "resample_one demo_runtime 0 (0, ''a'') (g, s) = Some (g', s')"
    by (auto simp: t w)
  have re': "reachable demo_runtime scenario_A 2 (g', s')"
    by (rule reachable.resampled[OF re d0 i0]) (simp add: w rs)
  note A = corpus_total_invariant[OF demo_runtime_ok re, unfolded n toks]
  note B = corpus_total_invariant[OF demo_runtime_ok re', unfolded n]
  from init A rs B show ?thesis by blast
qed

subsection \<open>The column sums of the two tables\<close>

text \<open>
  C4. At every reachable state, and also in the state that the remove half of a resample
  leaves, the sum of column \<open>j\<close> of \<open>doc_topic_counts\<close> over the documents equals the sum
  of column \<open>j\<close> of \<open>term_topic_count\<close> over the vocabulary, for every topic \<open>j\<close> of
  \<open>range(K)\<close>. Hence the denominator that \<open>word_given_topic\<close> computes from
  \<open>doc_topic_counts.sum()\<close> is the column sum of \<open>term_topic_count\<close> plus \<open>V * beta\<close>.
\<close>

theorem column_sum_invariant:
  fixes R :: "'g runtime"
  assumes "runtime_ok R" and "reachable R docs k (g, s)"
  shows "(\<forall>j < nat k. (\<Sum>d < length docs. doc_topic_counts s ! d ! j) =
                       (\<Sum>w \<in> set (tokens s). term_topic_count s w ! j)) \<and>
    (\<forall>d < length docs. \<forall>i < length (docs ! d).
       \<exists>s1. remove d i (docs ! d ! i) s = Some s1 \<and>
         (\<forall>j < nat k. (\<Sum>d < length docs. doc_topic_counts s1 ! d ! j) =
                       (\<Sum>w \<in> set (tokens s1). term_topic_count s1 w ! j)) \<and>
         word_given_topic s1 (docs ! d ! i) =
           map (\<lambda>j. (real_of_int (term_topic_count s1 (docs ! d ! i) ! j) + beta s1) /
                    (real_of_int (\<Sum>w \<in> set (tokens s1). term_topic_count s1 w ! j) +
                       real (V s1) * beta s1))
               [0..<nat k])"
proof -
  have wf: "wf s" and t: "texts s = docs" and kk: "K s = k"
    using reachable_wf[OF assms] by simp_all
  have len: "length (doc_topic_counts s) = length docs"
    using wf t by (simp add: wf_def counts_ok_def shape_ok_def)
  have a: "(\<Sum>d < length docs. doc_topic_counts s ! d ! j) =
      (\<Sum>w \<in> set (tokens s). term_topic_count s w ! j)" if "j < nat k" for j
    using wf_col_sums_set[OF wf, of j] that by (simp add: kk col_sum_nth len)
  have b: "\<exists>s1. remove d i (docs ! d ! i) s = Some s1 \<and>
         (\<forall>j < nat k. (\<Sum>d < length docs. doc_topic_counts s1 ! d ! j) =
                       (\<Sum>w \<in> set (tokens s1). term_topic_count s1 w ! j)) \<and>
         word_given_topic s1 (docs ! d ! i) =
           map (\<lambda>j. (real_of_int (term_topic_count s1 (docs ! d ! i) ! j) + beta s1) /
                    (real_of_int (\<Sum>w \<in> set (tokens s1). term_topic_count s1 w ! j) +
                       real (V s1) * beta s1))
               [0..<nat k]"
    if d: "d < length docs" and i: "i < length (docs ! d)" for d i
  proof -
    from resample_one_steps[OF assms(1) wf, of d i g] d i t
    obtain s1 where st: "remove d i (docs ! d ! i) s = Some s1" "mid d i s1" by auto
    note F = remove_frame[OF st(1)]
    have k1: "K s1 = k" using F kk by simp
    have len1: "length (doc_topic_counts s1) = length docs"
      using mid_row_sums[OF st(2)] F t by (metis length_list_update length_map)
    have c: "col_sum (doc_topic_counts s1) j =
        (\<Sum>w \<in> set (tokens s1). term_topic_count s1 w ! j)" if "j < nat k" for j
      using mid_col_sums_set[OF st(2), of j] that by (simp add: k1)
    have c': "\<forall>j < nat k. (\<Sum>d < length docs. doc_topic_counts s1 ! d ! j) =
        (\<Sum>w \<in> set (tokens s1). term_topic_count s1 w ! j)"
      using c by (simp add: col_sum_nth len1)
    have "word_given_topic s1 (docs ! d ! i) =
           map (\<lambda>j. (real_of_int (term_topic_count s1 (docs ! d ! i) ! j) + beta s1) /
                    (real_of_int (\<Sum>w \<in> set (tokens s1). term_topic_count s1 w ! j) +
                       real (V s1) * beta s1))
               [0..<nat k]"
      unfolding word_given_topic_def k1 using c by (intro map_cong refl) simp
    with st(1) c' show ?thesis by blast
  qed
  from a b show ?thesis by blast
qed

theorem column_sum_invariant_witness:
  "\<exists>gs. Gibbs_init demo_runtime 0 scenario_A 2 = Some gs \<and>
      (\<Sum>d < 2. doc_topic_counts (snd gs) ! d ! 0) =
        (\<Sum>w \<in> {''a'', ''b'', ''c''}. term_topic_count (snd gs) w ! 0) \<and>
      (\<exists>s1. remove 0 0 ''a'' (snd gs) = Some s1 \<and>
        (\<Sum>d < 2. doc_topic_counts s1 ! d ! 0) =
          (\<Sum>w \<in> {''a'', ''b'', ''c''}. term_topic_count s1 w ! 0))"
proof -
  obtain g s where init: "Gibbs_init demo_runtime 0 scenario_A 2 = Some (g, s)"
    and toks: "tokens s = [''a'', ''b'', ''c'']"
    using scenario_A_init by (fastforce simp: observe_def)
  have re: "reachable demo_runtime scenario_A 2 (g, s)"
    by (rule reachable.constructed[OF init])
  note T = column_sum_invariant[OF demo_runtime_ok re]
  have len: "length scenario_A = 2" and w: "scenario_A ! 0 ! 0 = ''a''"
    and d0: "0 < length scenario_A" and i0: "0 < length (scenario_A ! 0)"
    by (simp_all add: scenario_A_def)
  have j0: "(0::nat) < nat 2" by simp
  have a: "(\<Sum>d < 2. doc_topic_counts s ! d ! 0) =
        (\<Sum>w \<in> {''a'', ''b'', ''c''}. term_topic_count s w ! 0)"
    using T[THEN conjunct1, rule_format, OF j0] by (simp add: len toks)
  from T[THEN conjunct2, rule_format, OF d0 i0]
  obtain s1 where s1: "remove 0 0 (scenario_A ! 0 ! 0) s = Some s1"
    and c: "\<forall>j < nat 2. (\<Sum>d < length scenario_A. doc_topic_counts s1 ! d ! j) =
                       (\<Sum>w \<in> set (tokens s1). term_topic_count s1 w ! j)"
    by blast
  have t1: "tokens s1 = [''a'', ''b'', ''c'']" using remove_frame(3)[OF s1] toks by simp
  have b: "(\<Sum>d < 2. doc_topic_counts s1 ! d ! 0) =
          (\<Sum>w \<in> {''a'', ''b'', ''c''}. term_topic_count s1 w ! 0)"
    using c[rule_format, OF j0] by (simp add: len t1)
  from init a s1 b show ?thesis by (simp add: w)
qed

subsection \<open>The sweep driver\<close>



subsection \<open>The perplexity trace\<close>

text \<open>
  C6. At a reachable state an evaluation appends exactly one score to the trace and changes
  nothing else. The score is \<open>exp(-L/N)\<close>, with \<open>N\<close> the number of word occurrences and
  \<open>L\<close> the sum over the documents \<open>d\<close> and their word occurrences \<open>w\<close> of
  \<open>ln (sum over k of tt[w,k] * dt[d,k])\<close>, where \<open>dt\<close> and \<open>tt\<close> are the smoothed
  distributions \<open>dt_spec\<close> and \<open>tt_spec\<close>. The trace only grows: after any sequence of
  resamples and evaluations, and after \<open>iterate(n)\<close>, the old trace is a prefix of the new
  one, which has one more entry for each evaluation.
\<close>

theorem perplexity_trace:
  fixes R :: "'g runtime"
  assumes "runtime_ok R" and "reachable R docs k (g, s)"
  shows "perplexity (g, s) =
      Some (g, s\<lparr> perplexity_scores := perplexity_scores s @ [perplexity_spec s] \<rparr>) \<and>
    (\<forall>es. (\<forall>e \<in> set es. valid_event docs e) \<longrightarrow>
       (\<exists>g' s' new. for_loop (run_event R docs) es (g, s) = Some (g', s') \<and>
          perplexity_scores s' = perplexity_scores s @ new \<and>
          length new = count_list es Evaluate)) \<and>
    (\<forall>n. \<exists>g' s' new. iterate R n (g, s) = Some (g', s') \<and>
          perplexity_scores s' = perplexity_scores s @ new \<and>
          length new = count_list (schedule docs (nat n)) Evaluate)"
proof -
  have wf: "wf s" using reachable_wf[OF assms] by simp
  have a: "perplexity (g, s) =
      Some (g, s\<lparr> perplexity_scores := perplexity_scores s @ [perplexity_spec s] \<rparr>)"
    by (rule perplexity_Some[OF wf])
  have b: "\<exists>g' s' new. for_loop (run_event R docs) es (g, s) = Some (g', s') \<and>
          perplexity_scores s' = perplexity_scores s @ new \<and>
          length new = count_list es Evaluate" if "\<forall>e \<in> set es. valid_event docs e" for es
    by (rule run_events_scores[OF assms]) (use that in blast)
  have c: "\<exists>g' s' new. iterate R n (g, s) = Some (g', s') \<and>
          perplexity_scores s' = perplexity_scores s @ new \<and>
          length new = count_list (schedule docs (nat n)) Evaluate" for n
    unfolding iterate_flat[OF assms]
    by (rule run_events_scores[OF assms]) (rule valid_schedule)
  from a b c show ?thesis by blast
qed

theorem perplexity_trace_witness:
  "\<exists>g s. Gibbs_init demo_runtime 0 scenario_A 2 = Some (g, s) \<and>
     perplexity (g, s) = Some (g, s\<lparr> perplexity_scores := [perplexity_spec s] \<rparr>) \<and>
     (\<exists>g' s' new. iterate demo_runtime 26 (g, s) = Some (g', s') \<and>
        perplexity_scores s' = new \<and> length new = 2)"
proof -
  obtain g s where init: "Gibbs_init demo_runtime 0 scenario_A 2 = Some (g, s)"
    using scenario_A_init by fastforce
  have re: "reachable demo_runtime scenario_A 2 (g, s)"
    by (rule reachable.constructed[OF init])
  have e: "perplexity_scores s = []"
    using Gibbs_init_Some_wf[OF demo_runtime_ok init] by simp
  have cnt: "count_list (schedule scenario_A (nat 26)) Evaluate = 2"
    by code_simp
  note T = perplexity_trace[OF demo_runtime_ok re, unfolded e append_Nil]
  from T[THEN conjunct2, THEN conjunct2, rule_format, of 26]
  have "\<exists>g' s' new. iterate demo_runtime 26 (g, s) = Some (g', s') \<and>
        perplexity_scores s' = new \<and> length new = 2"
    unfolding cnt by blast
  with init T[THEN conjunct1] show ?thesis by blast
qed

subsection \<open>Construction\<close>

text \<open>
  C7. The constructor raises when \<open>K \<le> 0\<close>, when the vocabulary is empty, and when the
  \<open>V\<close> by \<open>K\<close> table of 8-byte counts is beyond numpy's size limit (\<open>8 * V * K \<ge> 2^63\<close>,
  which holds for every \<open>K\<close> outside the 64-bit range of \<open>randint\<close>). In every other
  case, that is for \<open>K \<ge> 1\<close>, \<open>V \<ge> 1\<close> and \<open>8 * V * K < 2^63\<close>, it returns a sampler
  with the priors \<open>50/K\<close> and \<open>200/V\<close> and an empty trace, whose assignment store has one
  topic of \<open>range(K)\<close> for each word occurrence, whose document table has in row \<open>d\<close>
  and column \<open>j\<close> the number of positions of document \<open>d\<close> that were assigned topic
  \<open>j\<close>, and whose term table has in row \<open>w\<close> and column \<open>j\<close> the number of occurrences
  of the word \<open>w\<close> that were assigned topic \<open>j\<close>.
\<close>

theorem construction_errors:
  fixes R :: "'g runtime"
  assumes "runtime_ok R"
  shows "(k \<le> 0 \<longrightarrow> Gibbs_init R g docs k = None) \<and>
    (length (set_list R (concat docs)) = 0 \<longrightarrow> Gibbs_init R g docs k = None) \<and>
    (concat docs = [] \<longrightarrow> Gibbs_init R g docs k = None) \<and>
    (2 ^ 63 \<le> 8 * int (length (set_list R (concat docs))) * k \<longrightarrow>
       Gibbs_init R g docs k = None) \<and>
    (1 \<le> k \<and> 1 \<le> length (set_list R (concat docs)) \<and>
     8 * int (length (set_list R (concat docs))) * k < 2 ^ 63 \<longrightarrow>
       (\<exists>g' s. Gibbs_init R g docs k = Some (g', s) \<and>
          K s = k \<and> texts s = docs \<and> tokens s = set_list R (concat docs) \<and>
          V s = length (tokens s) \<and>
          alpha s = 50 / real_of_int k \<and> beta s = 200 / real (V s) \<and>
          perplexity_scores s = [] \<and>
          list_all2 (\<lambda>topics doc. length topics = length doc \<and>
                       list_all (\<lambda>t. int t < k) topics) (doc_topic s) docs \<and>
          length (doc_topic_counts s) = length docs \<and>
          (\<forall>d < length docs. length (doc_topic_counts s ! d) = nat k \<and>
             (\<forall>j < nat k. doc_topic_counts s ! d ! j =
                int (card {i. i < length (docs ! d) \<and> doc_topic s ! d ! i = j}))) \<and>
          (\<forall>w \<in> set (tokens s). term_topic_count s w = tally_row k docs (doc_topic s) w)))"
proof -
  let ?toks = "set_list R (concat docs)"
  have st: "set ?toks = set (concat docs)" using assms by (simp add: runtime_ok_def)
  have a: "Gibbs_init R g docs k = None" if e: "concat docs = []"
  proof -
    have "set ?toks = {}" using st by (simp only: e list.set)
    then have "length ?toks = 0" by (simp only: set_empty list.size)
    then show ?thesis by (rule Gibbs_init_None_V)
  qed
  have b: "\<exists>g' s. Gibbs_init R g docs k = Some (g', s) \<and>
          K s = k \<and> texts s = docs \<and> tokens s = set_list R (concat docs) \<and>
          V s = length (tokens s) \<and>
          alpha s = 50 / real_of_int k \<and> beta s = 200 / real (V s) \<and>
          perplexity_scores s = [] \<and>
          list_all2 (\<lambda>topics doc. length topics = length doc \<and>
                       list_all (\<lambda>t. int t < k) topics) (doc_topic s) docs \<and>
          length (doc_topic_counts s) = length docs \<and>
          (\<forall>d < length docs. length (doc_topic_counts s ! d) = nat k \<and>
             (\<forall>j < nat k. doc_topic_counts s ! d ! j =
                int (card {i. i < length (docs ! d) \<and> doc_topic s ! d ! i = j}))) \<and>
          (\<forall>w \<in> set (tokens s). term_topic_count s w = tally_row k docs (doc_topic s) w)"
    if k: "1 \<le> k" and v: "1 \<le> length ?toks" and sz: "8 * int (length ?toks) * k < 2 ^ 63"
  proof -
    have "?toks \<noteq> []" using v by auto
    then have ne: "concat docs \<noteq> []" using st by (metis set_empty)
    from Gibbs_init_wf[OF assms k ne sz, of g]
    obtain g' s where init: "Gibbs_init R g docs k = Some (g', s)" and wf: "wf s"
      and f: "texts s = docs" "K s = k" "tokens s = set_list R (concat docs)"
      and pr: "alpha s = 50 / real_of_int k" "beta s = 200 / real (V s)"
        "perplexity_scores s = []"
      by blast
    have sh: "shape_ok s" and co: "counts_ok s" using wf by (simp_all add: wf_def)
    have len: "length (doc_topic s) = length docs" using sh f by (simp add: shape_ok_def)
    have lens: "length (doc_topic s ! d) = length (docs ! d)" if "d < length docs" for d
      using sh f that by (simp add: shape_ok_def list_all2_conv_all_nth)
    have dtc: "doc_topic_counts s = map (counter_row k) (doc_topic s)"
      using co f by (simp add: counts_ok_def)
    have "list_all2 (\<lambda>topics doc. length topics = length doc \<and>
                       list_all (\<lambda>t. int t < k) topics) (doc_topic s) docs"
      using sh f by (auto simp: shape_ok_def list_all2_conv_all_nth list_all_length)
    moreover have "V s = length (tokens s)" using sh by (simp add: shape_ok_def)
    moreover have "length (doc_topic_counts s) = length docs" by (simp add: dtc len)
    moreover have "\<forall>d < length docs. length (doc_topic_counts s ! d) = nat k \<and>
             (\<forall>j < nat k. doc_topic_counts s ! d ! j =
                int (card {i. i < length (docs ! d) \<and> doc_topic s ! d ! i = j}))"
    proof (intro allI impI conjI)
      fix d assume d: "d < length docs"
      show "length (doc_topic_counts s ! d) = nat k" using d by (simp add: dtc len)
      fix j assume j: "j < nat k"
      have "doc_topic_counts s ! d ! j = counter_row k (doc_topic s ! d) ! j"
        using d by (simp add: dtc len)
      also have "\<dots> = int (count_list (doc_topic s ! d) j)" by (rule counter_row_nth[OF j])
      also have "\<dots> = int (card {i. i < length (docs ! d) \<and> doc_topic s ! d ! i = j})"
        by (simp only: count_list_card lens[OF d])
      finally show "doc_topic_counts s ! d ! j =
          int (card {i. i < length (docs ! d) \<and> doc_topic s ! d ! i = j})" .
    qed
    moreover have "\<forall>w \<in> set (tokens s). term_topic_count s w = tally_row k docs (doc_topic s) w"
      using co f by (simp add: counts_ok_def list_all_iff)
    ultimately show ?thesis using init f pr by blast
  qed
  show ?thesis
    using Gibbs_init_None_K[of k R g docs] Gibbs_init_None_V[of R docs g k]
      Gibbs_init_None_big[of R docs k g] a b by blast
qed

theorem construction_errors_witness:
  "Gibbs_init demo_runtime 0 scenario_A 0 = None \<and>
   Gibbs_init demo_runtime 0 scenario_A (- 1) = None \<and>
   Gibbs_init demo_runtime 0 [[], []] 2 = None \<and>
   Gibbs_init demo_runtime 0 scenario_A (2 ^ 62) = None \<and>
   (\<exists>g' s. Gibbs_init demo_runtime 0 scenario_A 2 = Some (g', s) \<and>
      K s = 2 \<and> V s = 3 \<and> tokens s = [''a'', ''b'', ''c''] \<and>
      doc_topic s = [[0, 1], [0, 1]] \<and>
      doc_topic_counts s = [[1, 1], [1, 1]] \<and>
      doc_topic_counts s ! 0 ! 1 = int (card {i. i < 2 \<and> doc_topic s ! 0 ! i = 1}) \<and>
      map (term_topic_count s) (tokens s) = [[1, 0], [1, 1], [0, 1]])"
proof -
  note T = construction_errors[OF demo_runtime_ok, where g = 0]
  have 1: "Gibbs_init demo_runtime 0 scenario_A 0 = None"
    using T[of 0 scenario_A] by simp
  have 2: "Gibbs_init demo_runtime 0 scenario_A (- 1) = None"
    using T[of "- 1" scenario_A] by simp
  have 3: "Gibbs_init demo_runtime 0 [[], []] 2 = None"
    using T[of 2 "[[], []]"] by simp
  have toks: "set_list demo_runtime (concat scenario_A) = [''a'', ''b'', ''c'']"
    by (simp add: demo_runtime_def scenario_A_def)
  have 4: "Gibbs_init demo_runtime 0 scenario_A (2 ^ 62) = None"
    using T[of "2 ^ 62" scenario_A] unfolding toks by simp
  have pre: "(1::int) \<le> 2" "1 \<le> length (set_list demo_runtime (concat scenario_A))"
    "8 * int (length (set_list demo_runtime (concat scenario_A))) * 2 < 2 ^ 63"
    by (simp_all add: toks)
  obtain g' s where init: "Gibbs_init demo_runtime 0 scenario_A 2 = Some (g', s)"
    and ob: "doc_topic s = [[0, 1], [0, 1]]" "doc_topic_counts s = [[1, 1], [1, 1]]"
      "map (term_topic_count s) (tokens s) = [[1, 0], [1, 1], [0, 1]]"
    using scenario_A_init by (fastforce simp: observe_def)
  from T[of 2 scenario_A, THEN conjunct2, THEN conjunct2, THEN conjunct2, THEN conjunct2] pre
  have f: "K s = 2" "V s = length (tokens s)"
      "tokens s = set_list demo_runtime (concat scenario_A)"
    and cell: "\<forall>d < length scenario_A. length (doc_topic_counts s ! d) = nat 2 \<and>
             (\<forall>j < nat 2. doc_topic_counts s ! d ! j =
                int (card {i. i < length (scenario_A ! d) \<and> doc_topic s ! d ! i = j}))"
    unfolding init by blast+
  have d0: "0 < length scenario_A" and j1: "(1::nat) < nat 2" by (simp_all add: scenario_A_def)
  have c: "doc_topic_counts s ! 0 ! 1 = int (card {i. i < 2 \<and> doc_topic s ! 0 ! i = 1})"
    using cell[rule_format, OF d0, THEN conjunct2, rule_format, OF j1]
    by (simp add: scenario_A_def numeral_2_eq_2)
  from init f ob c have 5: "\<exists>g' s. Gibbs_init demo_runtime 0 scenario_A 2 = Some (g', s) \<and>
      K s = 2 \<and> V s = 3 \<and> tokens s = [''a'', ''b'', ''c''] \<and>
      doc_topic s = [[0, 1], [0, 1]] \<and>
      doc_topic_counts s = [[1, 1], [1, 1]] \<and>
      doc_topic_counts s ! 0 ! 1 = int (card {i. i < 2 \<and> doc_topic s ! 0 ! i = 1}) \<and>
      map (term_topic_count s) (tokens s) = [[1, 0], [1, 1], [0, 1]]"
    by (simp add: toks)
  from 1 2 3 4 5 show ?thesis by blast
qed

text \<open>
  C7 as stated in the specification fails: \<open>K \<ge> 1\<close> and \<open>V \<ge> 1\<close> do not suffice for
  the construction to succeed. For the corpus \<open>[a, b], [b, c]\<close> and \<open>K = 2^64\<close> the
  first call of \<open>np.random.randint(0, K, ...)\<close> raises (high is out of bounds for int64).
\<close>

theorem construction_fails_for_large_K:
  "(1::int) \<le> 2 ^ 64 \<and> 1 \<le> length (set_list demo_runtime (concat scenario_A)) \<and>
   draw_docs demo_runtime (2 ^ 64) scenario_A 0 = None \<and>
   Gibbs_init demo_runtime 0 scenario_A (2 ^ 64) = None"
  by (simp add: Gibbs_init_def Let_def np_randint_def scenario_A_def demo_runtime_def)

subsection \<open>Runs from the same generator state\<close>

text \<open>
  C8. The class has no seed parameter of its own: the seed of a run is the state of numpy's
  global generator when the sampler is constructed. Two runs on the same corpus with the
  same \<open>K\<close> that start from the same generator state, whose generator answers alike and
  whose runtimes may list the token set in different orders, make the same initial draws,
  the same draw at every resample of any sequence of resamples and evaluations (so also of
  \<open>iterate(n)\<close>), and produce the same perplexity trace; a run raises exactly when the
  other does. The scores are compared as real numbers.
\<close>

theorem seeded_runs_agree:
  fixes R1 R2 :: "'g runtime"
  assumes "runtime_ok R1" and "runtime_ok R2"
    and "randint R2 = randint R1" and "multinomial1 R2 = multinomial1 R1"
  shows "map_option draws_and_trace (Gibbs_init R2 g docs k) =
         map_option draws_and_trace (Gibbs_init R1 g docs k) \<and>
    (\<forall>es. map_option draws_and_trace
            (Gibbs_init R2 g docs k \<bind> for_loop (run_event R2 docs) es) =
          map_option draws_and_trace
            (Gibbs_init R1 g docs k \<bind> for_loop (run_event R1 docs) es)) \<and>
    (\<forall>n. map_option draws_and_trace (Gibbs_init R2 g docs k \<bind> iterate R2 n) =
         map_option draws_and_trace (Gibbs_init R1 g docs k \<bind> iterate R1 n))"
proof -
  let ?ts = "set_list R2 (concat docs)"
  note init = Gibbs_init_retoken[OF assms(1-3), of g docs k]
  have a: "map_option draws_and_trace (Gibbs_init R2 g docs k) =
         map_option draws_and_trace (Gibbs_init R1 g docs k)"
    by (simp add: init option.map_comp o_def draws_and_trace_retoken)
  have rel: "for_loop (run_event R2 docs) es (retoken ?ts gs1) =
      map_option (retoken ?ts) (for_loop (run_event R1 docs) es gs1)"
    if "Gibbs_init R1 g docs k = Some gs1" for gs1 es
  proof -
    have "tokens (snd gs1) = set_list R1 (concat docs)"
      using that by (auto simp: Gibbs_init_def Let_def split: Option.bind_splits)
    then have "distinct (tokens (snd gs1))" "set ?ts = set (tokens (snd gs1))" "distinct ?ts"
      using assms(1,2) by (simp_all add: runtime_ok_def)
    then show ?thesis using run_events_retoken[OF assms(4)] by blast
  qed
  have b: "map_option draws_and_trace
            (Gibbs_init R2 g docs k \<bind> for_loop (run_event R2 docs) es) =
          map_option draws_and_trace
            (Gibbs_init R1 g docs k \<bind> for_loop (run_event R1 docs) es)" for es
  proof (cases "Gibbs_init R1 g docs k")
    case None
    then show ?thesis by (simp add: init)
  next
    case (Some gs1)
    then show ?thesis
      by (simp add: init rel[OF Some] option.map_comp o_def draws_and_trace_retoken)
  qed
  have c: "map_option draws_and_trace (Gibbs_init R2 g docs k \<bind> iterate R2 n) =
         map_option draws_and_trace (Gibbs_init R1 g docs k \<bind> iterate R1 n)" for n
  proof (cases "Gibbs_init R1 g docs k")
    case None
    then show ?thesis by (simp add: init)
  next
    case (Some gs1)
    have i2: "Gibbs_init R2 g docs k = Some (retoken ?ts gs1)" by (simp add: init Some)
    have r1: "reachable R1 docs k gs1" by (rule reachable.constructed[OF Some])
    have r2: "reachable R2 docs k (retoken ?ts gs1)" by (rule reachable.constructed[OF i2])
    have "iterate R2 n (retoken ?ts gs1) = map_option (retoken ?ts) (iterate R1 n gs1)"
      by (simp only: iterate_flat[OF assms(1) r1] iterate_flat[OF assms(2) r2] rel[OF Some])
    then show ?thesis
      by (simp add: Some i2 option.map_comp o_def draws_and_trace_retoken)
  qed
  from a b c show ?thesis by blast
qed

theorem seeded_runs_agree_witness:
  "set_list demo_runtime (concat scenario_A) = [''a'', ''b'', ''c''] \<and>
   set_list demo_runtime_rev (concat scenario_A) = [''c'', ''b'', ''a''] \<and>
   map_option draws_and_trace (Gibbs_init demo_runtime_rev 0 scenario_A 2) =
     Some ([[0, 1], [0, 1]], [], 4) \<and>
   map_option draws_and_trace
     (Gibbs_init demo_runtime_rev 0 scenario_A 2 \<bind> iterate demo_runtime_rev 1) =
   map_option draws_and_trace
     (Gibbs_init demo_runtime 0 scenario_A 2 \<bind> iterate demo_runtime 1)"
proof -
  have ok2: "runtime_ok demo_runtime_rev"
    using demo_runtime_ok by (simp add: runtime_ok_def demo_runtime_rev_def)
  have eq: "randint demo_runtime_rev = randint demo_runtime"
    "multinomial1 demo_runtime_rev = multinomial1 demo_runtime"
    by (simp_all add: demo_runtime_rev_def)
  note T = seeded_runs_agree[OF demo_runtime_ok ok2 eq, of 0 scenario_A 2]
  have a: "set_list demo_runtime (concat scenario_A) = [''a'', ''b'', ''c'']"
    "set_list demo_runtime_rev (concat scenario_A) = [''c'', ''b'', ''a'']"
    by (simp_all add: demo_runtime_def demo_runtime_rev_def scenario_A_def)
  have "map_option draws_and_trace (Gibbs_init demo_runtime 0 scenario_A 2) =
     Some ([[0, 1], [0, 1]], [], 4)"
    by code_simp
  then have b: "map_option draws_and_trace (Gibbs_init demo_runtime_rev 0 scenario_A 2) =
     Some ([[0, 1], [0, 1]], [], 4)"
    using T by simp
  from a b T show ?thesis by blast
qed

subsection \<open>The top words\<close>

text \<open>
  C9. \<open>top_n_words(n)\<close> takes no topic argument and has no \<open>return\<close> statement, although
  its docstring reads "Returns the n most frequent words from each topic": for every topic
  of \<open>range(K)\<close> it prints the first \<open>n\<close> terms of the vocabulary sorted by decreasing
  \<open>term_topic_count[*, topic]\<close>, and the call evaluates to \<open>None\<close>. On the sampler
  constructed for the corpus \<open>[a, b], [b, c]\<close> with \<open>K = 2\<close> the call \<open>top_n_words(1)\<close>
  prints \<open>a\<close> for topic 0 and \<open>b\<close> for topic 1 and returns \<open>None\<close>, where the terms
  with the highest counts were to be returned.
\<close>

theorem top_n_words_returns_none:
  "map_option (printed_and_returned demo_runtime 1) (Gibbs_init demo_runtime 0 scenario_A 2) =
   Some ([(0, [''a'']), (1, [''b''])], None)"
  by code_simp

subsection \<open>No sweep\<close>

text \<open>
  C10. \<open>iterate\<close> with \<open>n = 0\<close> returns the state it was given: no resample and no
  perplexity evaluation takes place, so \<open>doc_topic\<close>, both count tables, \<open>alpha\<close>,
  \<open>beta\<close>, the perplexity trace and the generator state are unchanged.
\<close>

theorem iterate_zero_unchanged: "iterate R 0 (g, s) = Some (g, s)"
  by (simp add: iterate_def)

end
